theory Spec2Isabelle
  imports Main
begin

section \<open>The data model of LogicaNodal.py\<close>

text \<open>
  A \<^verbatim>\<open>Nodo\<close> object holds Python references to other \<^verbatim>\<open>Nodo\<close> objects in its lists
  \<^verbatim>\<open>hijos\<close> and \<^verbatim>\<open>padres\<close>, and the objects are mutated in place. The model keeps an
  explicit store \<open>memoria\<close> of all the objects a diagram ever allocated. A reference to an
  object is the object's \<^verbatim>\<open>id\<close>: an id is given once, at allocation, from the counter
  \<^verbatim>\<open>_siguiente_id\<close>, which only grows, so no two objects of one diagram share an id, and
  \<^verbatim>\<open>h.id\<close> of a reference \<open>h\<close> is \<open>h\<close> itself. The dictionary \<^verbatim>\<open>self.nodos\<close> is the list
  of its keys in insertion order; its value at key \<open>k\<close> is the object \<open>k\<close> of the store.
  An object deleted from the dictionary stays in the store, as it stays alive in Python
  while some list refers to it.
\<close>

record Nodo =
  nombre :: string
  hijos :: "int list"
  padres :: "int list"
  restricciones_propias :: "string set"
  restricciones_heredadas :: "string set list"
  homologos :: "int set"
  contenido :: string
  gitURL :: string

definition Nodo_nuevo :: Nodo where
  "Nodo_nuevo = \<lparr>nombre = [], hijos = [], padres = [], restricciones_propias = {},
     restricciones_heredadas = [], homologos = {}, contenido = [], gitURL = []\<rparr>"

text \<open>The property \<^verbatim>\<open>Nodo.restricciones\<close>: the inherited layers, then the own constraints.\<close>

definition restricciones :: "Nodo \<Rightarrow> string set list" where
  "restricciones n = restricciones_heredadas n @ [restricciones_propias n]"

record Diagrama =
  titulo :: string
  memoria :: "int \<rightharpoonup> Nodo"
  nodos :: "int list"
  siguiente_id :: int
  nodo_raiz_id :: "int option"

definition nodo :: "Diagrama \<Rightarrow> int \<Rightarrow> Nodo" where
  "nodo d k = the (memoria d k)"

text \<open>In-place mutation of the object \<open>k\<close>.\<close>

definition modificar :: "int \<Rightarrow> (Nodo \<Rightarrow> Nodo) \<Rightarrow> Diagrama \<Rightarrow> Diagrama" where
  "modificar k f d = d\<lparr>memoria := (memoria d)(k \<mapsto> f (nodo d k))\<rparr>"

text \<open>\<^verbatim>\<open>self.nodos[k] = nodo\<close>: a new key goes to the end, an old key keeps its place.\<close>

definition registrar :: "int \<Rightarrow> int list \<Rightarrow> int list" where
  "registrar k ks = (if k \<in> set ks then ks else ks @ [k])"

definition crear_nodo_raiz :: "Diagrama \<Rightarrow> Diagrama" where
  "crear_nodo_raiz d =
     (let i = siguiente_id d;
          d1 = d\<lparr>memoria := (memoria d)(i \<mapsto> Nodo_nuevo), siguiente_id := i + 1\<rparr>;
          d2 = modificar i (\<lambda>m. m\<lparr>nombre := titulo d1\<rparr>) d1
      in d2\<lparr>nodos := registrar i (nodos d2), nodo_raiz_id := Some i\<rparr>)"

definition Diagrama_nuevo :: "string \<Rightarrow> Diagrama" where
  "Diagrama_nuevo nom =
     crear_nodo_raiz \<lparr>titulo = nom, memoria = Map.empty, nodos = [], siguiente_id = 1,
       nodo_raiz_id = None\<rparr>"

section \<open>Homologs\<close>

text \<open>
  \<^verbatim>\<open>actualizarHomologos\<close>: the loop over \<^verbatim>\<open>self.nodos.values()\<close> carries the local set
  \<^verbatim>\<open>homologos\<close> and the diagram.
\<close>

definition paso_homologo :: "int \<Rightarrow> string \<Rightarrow> int \<Rightarrow> int set \<times> Diagrama \<Rightarrow> int set \<times> Diagrama" where
  "paso_homologo i nom k = (\<lambda>(hs, d).
     if nombre (nodo d k) = nom \<and> k \<noteq> i
     then (insert k hs, modificar k (\<lambda>m. m\<lparr>homologos := insert i (homologos m)\<rparr>) d)
     else (hs, d))"

definition actualizarHomologos :: "int \<Rightarrow> string \<Rightarrow> Diagrama \<Rightarrow> Diagrama" where
  "actualizarHomologos i nom d =
     (if i \<notin> set (nodos d) then d
      else case fold (paso_homologo i nom) (nodos d) ({}, d) of
             (hs, d1) \<Rightarrow> modificar i (\<lambda>m. m\<lparr>homologos := hs\<rparr>) d1)"

section \<open>Adding a node\<close>

text \<open>\<^verbatim>\<open>list.insert(k, x)\<close> for \<open>0 \<le> k \<le> len\<close>.\<close>

definition insertar :: "nat \<Rightarrow> 'a \<Rightarrow> 'a list \<Rightarrow> 'a list" where
  "insertar k x xs = take k xs @ x # drop k xs"

definition anadirNodo :: "string \<Rightarrow> int option \<Rightarrow> int option \<Rightarrow> Diagrama \<Rightarrow> int \<times> Diagrama" where
  "anadirNodo nom id_padre num_hijo d =
     (let i = siguiente_id d;
          d1 = d\<lparr>memoria := (memoria d)(i \<mapsto> Nodo_nuevo), siguiente_id := i + 1\<rparr>;
          d2 = modificar i (\<lambda>m. m\<lparr>nombre := nom\<rparr>) d1;
          d3 = (case id_padre of
                  None \<Rightarrow> d2
                | Some p \<Rightarrow>
                    if p \<in> set (nodos d2) then
                      let d2a = modificar i (\<lambda>m. m\<lparr>padres := padres m @ [p]\<rparr>) d2;
                          d2b = modificar i
                                  (\<lambda>m. m\<lparr>restricciones_heredadas := restricciones (nodo d2a p)\<rparr>) d2a
                      in (case num_hijo of
                            None \<Rightarrow> modificar p (\<lambda>m. m\<lparr>hijos := hijos m @ [i]\<rparr>) d2b
                          | Some k \<Rightarrow>
                              if 0 \<le> k \<and> k \<le> int (length (hijos (nodo d2b p)))
                              then modificar p (\<lambda>m. m\<lparr>hijos := insertar (nat k) i (hijos m)\<rparr>) d2b
                              else modificar p (\<lambda>m. m\<lparr>hijos := hijos m @ [i]\<rparr>) d2b)
                    else d2);
          d4 = d3\<lparr>nodos := registrar i (nodos d3)\<rparr>
      in (i, actualizarHomologos i nom d4))"

section \<open>Loops whose body may not return\<close>

text \<open>
  The recursive methods of \<^verbatim>\<open>Diagrama\<close> recurse inside a \<^verbatim>\<open>for\<close> loop. They are modelled
  with fuel, the bound on the depth of the recursion: \<open>None\<close> says that the fuel was not
  enough. \<open>bucle\<close> is the \<^verbatim>\<open>for\<close> loop over a list with such a body.
\<close>

fun bucle :: "('a \<Rightarrow> 's \<Rightarrow> 's option) \<Rightarrow> 'a list \<Rightarrow> 's \<Rightarrow> 's option" where
  "bucle f [] s = Some s"
| "bucle f (x # xs) s = (case f x s of None \<Rightarrow> None | Some s' \<Rightarrow> bucle f xs s')"

section \<open>Deleting a node\<close>

definition quitar_de_padres :: "int \<Rightarrow> int list \<Rightarrow> Diagrama \<Rightarrow> Diagrama" where
  "quitar_de_padres i ps d =
     fold (\<lambda>p s. if p \<in> set (nodos s)
                 then modificar p (\<lambda>m. m\<lparr>hijos := filter (\<lambda>h. h \<noteq> i) (hijos m)\<rparr>) s
                 else s) ps d"

text \<open>
  The last loop of \<^verbatim>\<open>eliminarNodo\<close> runs over the set \<open>homs\<close> and acts on its members that
  are keys of the dictionary; the steps touch different objects, so their order is
  immaterial, and the model takes the keys in the order of the dictionary.
\<close>

definition quitar_de_homologos :: "int \<Rightarrow> int set \<Rightarrow> Diagrama \<Rightarrow> Diagrama" where
  "quitar_de_homologos i homs d =
     fold (\<lambda>k s. if k \<in> homs
                 then modificar k (\<lambda>m. m\<lparr>homologos := homologos m - {i}\<rparr>) s
                 else s) (nodos d) d"

fun eliminarNodo :: "nat \<Rightarrow> int \<Rightarrow> Diagrama \<Rightarrow> (bool \<times> Diagrama) option" where
  "eliminarNodo 0 i d = None"
| "eliminarNodo (Suc n) i d =
     (if i \<notin> set (nodos d) then Some (False, d)
      else case bucle (\<lambda>h s. map_option snd (eliminarNodo n h s)) (hijos (nodo d i)) d of
             None \<Rightarrow> None
           | Some d1 \<Rightarrow>
               let homs = homologos (nodo d1 i);
                   d2 = quitar_de_padres i (padres (nodo d1 i)) d1;
                   d3 = d2\<lparr>nodos := removeAll i (nodos d2)\<rparr>
               in Some (True, quitar_de_homologos i homs d3))"

definition obtenerNodo :: "int \<Rightarrow> Diagrama \<Rightarrow> Nodo option" where
  "obtenerNodo i d = (if i \<notin> set (nodos d) then None else Some (nodo d i))"

section \<open>Linking: the cycle check and the propagation of constraints\<close>

text \<open>
  \<^verbatim>\<open>tiene_descendiente\<close> is a closure over the mutable set \<^verbatim>\<open>visitados\<close>: the model passes
  the set in and out. \<open>busca\<close> is its \<^verbatim>\<open>for\<close> loop, which returns at the first child that
  answers \<^verbatim>\<open>True\<close>.
\<close>

fun busca :: "(int \<Rightarrow> int set \<Rightarrow> (bool \<times> int set) option) \<Rightarrow> int list \<Rightarrow> int set
    \<Rightarrow> (bool \<times> int set) option" where
  "busca f [] vis = Some (False, vis)"
| "busca f (h # hs) vis =
     (case f h vis of
        None \<Rightarrow> None
      | Some (True, vis') \<Rightarrow> Some (True, vis')
      | Some (False, vis') \<Rightarrow> busca f hs vis')"

fun tiene_descendiente :: "nat \<Rightarrow> Diagrama \<Rightarrow> int \<Rightarrow> int \<Rightarrow> int set \<Rightarrow> (bool \<times> int set) option" where
  "tiene_descendiente 0 d objetivo nodo_id vis = None"
| "tiene_descendiente (Suc n) d objetivo nodo_id vis =
     (if nodo_id = objetivo then Some (True, vis)
      else if nodo_id \<in> vis then Some (False, vis)
      else if nodo_id \<in> set (nodos d)
           then busca (tiene_descendiente n d objetivo) (hijos (nodo d nodo_id)) (insert nodo_id vis)
           else Some (False, insert nodo_id vis))"

definition creaCiclo :: "nat \<Rightarrow> int \<Rightarrow> int \<Rightarrow> Diagrama \<Rightarrow> bool option" where
  "creaCiclo fuel id_padre id_hijo d = map_option fst (tiene_descendiente fuel d id_padre id_hijo {})"

text \<open>\<^verbatim>\<open>zip_longest(xs, ys, fillvalue=f)\<close> and the layer-wise union built on it.\<close>

fun zip_longest :: "'a \<Rightarrow> 'a list \<Rightarrow> 'a list \<Rightarrow> ('a \<times> 'a) list" where
  "zip_longest f [] [] = []"
| "zip_longest f (x # xs) [] = (x, f) # zip_longest f xs []"
| "zip_longest f [] (y # ys) = (f, y) # zip_longest f [] ys"
| "zip_longest f (x # xs) (y # ys) = (x, y) # zip_longest f xs ys"

definition combinar :: "'a set list \<Rightarrow> 'a set list \<Rightarrow> 'a set list" where
  "combinar xs ys = map (\<lambda>(a, b). a \<union> b) (zip_longest {} xs ys)"

definition heredar :: "int \<Rightarrow> int \<Rightarrow> Diagrama \<Rightarrow> Diagrama" where
  "heredar p h d =
     modificar h (\<lambda>m. m\<lparr>restricciones_heredadas :=
        combinar (restricciones (nodo d p)) (restricciones_heredadas m)\<rparr>) d"

fun propagarRestricciones :: "nat \<Rightarrow> int \<Rightarrow> Diagrama \<Rightarrow> Diagrama option" where
  "propagarRestricciones 0 i d = None"
| "propagarRestricciones (Suc n) i d =
     (if i \<notin> set (nodos d) then Some d
      else bucle (\<lambda>h s. propagarRestricciones n h (heredar i h s)) (hijos (nodo d i)) d)"

definition enlazarNodos :: "nat \<Rightarrow> int \<Rightarrow> int \<Rightarrow> Diagrama \<Rightarrow> (bool \<times> Diagrama) option" where
  "enlazarNodos fuel id_padre id_hijo d =
     (if id_padre \<notin> set (nodos d) \<or> id_hijo \<notin> set (nodos d) then Some (False, d)
      else if id_hijo \<in> set (hijos (nodo d id_padre)) then Some (False, d)
      else case creaCiclo fuel id_padre id_hijo d of
             None \<Rightarrow> None
           | Some True \<Rightarrow> Some (False, d)
           | Some False \<Rightarrow>
               let d1 = modificar id_padre (\<lambda>m. m\<lparr>hijos := hijos m @ [id_hijo]\<rparr>) d;
                   d2 = modificar id_hijo (\<lambda>m. m\<lparr>padres := padres m @ [id_padre]\<rparr>) d1;
                   d3 = heredar id_padre id_hijo d2
               in map_option (Pair True) (propagarRestricciones fuel id_hijo d3))"

section \<open>The endpoints of server.py that act on a diagram\<close>

text \<open>
  \<^verbatim>\<open>eliminar_enlace\<close> and \<^verbatim>\<open>actualizar_nodo\<close>, from the point where the diagram has been
  looked up. An \<^verbatim>\<open>HTTPException\<close> is the error value, with its status code.
\<close>

datatype error = HTTPException int

definition eliminar_enlace :: "int \<Rightarrow> int \<Rightarrow> Diagrama \<Rightarrow> error + Diagrama" where
  "eliminar_enlace id_padre id_hijo d =
     (if id_padre \<notin> set (nodos d) \<or> id_hijo \<notin> set (nodos d) then Inl (HTTPException 404)
      else
        let d1 = (if id_hijo \<in> set (hijos (nodo d id_padre))
                  then modificar id_padre (\<lambda>m. m\<lparr>hijos := remove1 id_hijo (hijos m)\<rparr>) d
                  else d);
            d2 = (if id_padre \<in> set (padres (nodo d1 id_hijo))
                  then modificar id_hijo (\<lambda>m. m\<lparr>padres := remove1 id_padre (padres m)\<rparr>) d1
                  else d1)
        in Inr d2)"

definition actualizar_nodo :: "int \<Rightarrow> string option \<Rightarrow> string option \<Rightarrow> string option
    \<Rightarrow> Diagrama \<Rightarrow> error + Diagrama" where
  "actualizar_nodo nodo_id nom cont url d =
     (if nodo_id \<notin> set (nodos d) then Inl (HTTPException 404)
      else
        let d1 = (case nom of
                    None \<Rightarrow> d
                  | Some s \<Rightarrow> actualizarHomologos nodo_id s
                               (modificar nodo_id (\<lambda>m. m\<lparr>nombre := s\<rparr>) d));
            d2 = (case cont of
                    None \<Rightarrow> d1
                  | Some s \<Rightarrow> modificar nodo_id (\<lambda>m. m\<lparr>contenido := s\<rparr>) d1);
            d3 = (case url of
                    None \<Rightarrow> d2
                  | Some s \<Rightarrow> modificar nodo_id (\<lambda>m. m\<lparr>gitURL := s\<rparr>) d2)
        in Inr d3)"

section \<open>Sequences of operations\<close>

text \<open>
  The states a diagram can be in are those that a sequence of operations reaches from a
  new diagram. An operation that answers with an error leaves the diagram as it was.
\<close>

datatype operacion =
    Anadir string "int option" "int option"
  | Eliminar int
  | Enlazar int int
  | Desenlazar int int
  | Actualizar int "string option" "string option" "string option"

fun aplicar :: "nat \<Rightarrow> operacion \<Rightarrow> Diagrama \<Rightarrow> Diagrama option" where
  "aplicar fuel (Anadir nom p k) d = Some (snd (anadirNodo nom p k d))"
| "aplicar fuel (Eliminar i) d = map_option snd (eliminarNodo fuel i d)"
| "aplicar fuel (Enlazar p c) d = map_option snd (enlazarNodos fuel p c d)"
| "aplicar fuel (Desenlazar p c) d =
     Some (case eliminar_enlace p c d of Inl e \<Rightarrow> d | Inr d' \<Rightarrow> d')"
| "aplicar fuel (Actualizar i nom cont url) d =
     Some (case actualizar_nodo i nom cont url d of Inl e \<Rightarrow> d | Inr d' \<Rightarrow> d')"

definition ejecutar :: "nat \<Rightarrow> operacion list \<Rightarrow> string \<Rightarrow> Diagrama option" where
  "ejecutar fuel ops nom = bucle (aplicar fuel) ops (Diagrama_nuevo nom)"

section \<open>Specification vocabulary\<close>

text \<open>
  The children edges of a diagram go from a key of the dictionary to the members of its
  list \<^verbatim>\<open>hijos\<close>; the descendants of a node are the nodes these edges reach from it, the
  node itself included.
\<close>

definition aristas :: "Diagrama \<Rightarrow> (int \<times> int) set" where
  "aristas d = {(a, b). a \<in> set (nodos d) \<and> b \<in> set (hijos (nodo d a))}"

definition descendientes :: "Diagrama \<Rightarrow> int \<Rightarrow> int set" where
  "descendientes d x = {y. (x, y) \<in> (aristas d)\<^sup>*}"

text \<open>
  The structural invariant: keys are below the counter, no list of children or parents
  repeats a node, the two lists agree on every edge and mention registered nodes only,
  and no node is its own descendant through one or more edges.
\<close>

definition bien_formado :: "Diagrama \<Rightarrow> bool" where
  "bien_formado d \<longleftrightarrow>
     (\<forall>k \<in> set (nodos d). k < siguiente_id d) \<and>
     (\<forall>k \<in> set (nodos d). distinct (hijos (nodo d k)) \<and> distinct (padres (nodo d k))) \<and>
     (\<forall>k \<in> set (nodos d). \<forall>c \<in> set (hijos (nodo d k)).
        c \<in> set (nodos d) \<and> k \<in> set (padres (nodo d c))) \<and>
     (\<forall>k \<in> set (nodos d). \<forall>p \<in> set (padres (nodo d k)).
        p \<in> set (nodos d) \<and> k \<in> set (hijos (nodo d p))) \<and>
     acyclic (aristas d)"

text \<open>Layer-wise inclusion of a stack of constraint layers in another.\<close>

definition capas_le :: "'a set list \<Rightarrow> 'a set list \<Rightarrow> bool" where
  "capas_le xs ys \<longleftrightarrow> length xs \<le> length ys \<and> (\<forall>i < length xs. xs ! i \<subseteq> ys ! i)"

text \<open>
  \<open>heredado d p c\<close>: the inherited layers of \<open>c\<close> include the full stack of \<open>p\<close>, layer
  by layer. \<open>capas_heredadas\<close>: this holds along every edge.
\<close>

definition heredado :: "Diagrama \<Rightarrow> int \<Rightarrow> int \<Rightarrow> bool" where
  "heredado d p c \<longleftrightarrow>
     capas_le (restricciones (nodo d p)) (restricciones_heredadas (nodo d c))"

definition capas_heredadas :: "Diagrama \<Rightarrow> bool" where
  "capas_heredadas d \<longleftrightarrow> (\<forall>p c. (p, c) \<in> aristas d \<longrightarrow> heredado d p c)"

text \<open>From \<open>d\<close> to \<open>d'\<close> no inherited layer shrinks and no own constraint changes.\<close>

definition capas_crecen :: "Diagrama \<Rightarrow> Diagrama \<Rightarrow> bool" where
  "capas_crecen d d' \<longleftrightarrow>
     (\<forall>k. capas_le (restricciones_heredadas (nodo d k)) (restricciones_heredadas (nodo d' k)) \<and>
          restricciones_propias (nodo d' k) = restricciones_propias (nodo d k))"


text \<open>Two diagrams with the same keys, counter, children and parents.\<close>

definition misma_estructura :: "Diagrama \<Rightarrow> Diagrama \<Rightarrow> bool" where
  "misma_estructura d d' \<longleftrightarrow>
     nodos d' = nodos d \<and> siguiente_id d' = siguiente_id d \<and>
     (\<forall>k. hijos (nodo d' k) = hijos (nodo d k) \<and> padres (nodo d' k) = padres (nodo d k))"

definition mismas_capas :: "Diagrama \<Rightarrow> Diagrama \<Rightarrow> bool" where
  "mismas_capas d d' \<longleftrightarrow>
     (\<forall>k. restricciones_heredadas (nodo d' k) = restricciones_heredadas (nodo d k) \<and>
          restricciones_propias (nodo d' k) = restricciones_propias (nodo d k))"

text \<open>
  \<open>restringido d D d'\<close>: \<open>d'\<close> is \<open>d\<close> without the nodes of \<open>D\<close>. The keys of \<open>D\<close> are
  gone, and every remaining node has lost its children in \<open>D\<close> and kept its parents and
  its constraints.
\<close>

definition restringido :: "Diagrama \<Rightarrow> int set \<Rightarrow> Diagrama \<Rightarrow> bool" where
  "restringido d D d' \<longleftrightarrow>
     nodos d' = filter (\<lambda>k. k \<notin> D) (nodos d) \<and> siguiente_id d' = siguiente_id d \<and>
     (\<forall>k \<in> set (nodos d) - D.
        hijos (nodo d' k) = filter (\<lambda>h. h \<notin> D) (hijos (nodo d k)) \<and>
        padres (nodo d' k) = padres (nodo d k) \<and>
        restricciones_heredadas (nodo d' k) = restricciones_heredadas (nodo d k) \<and>
        restricciones_propias (nodo d' k) = restricciones_propias (nodo d k))"

definition cerrado :: "Diagrama \<Rightarrow> int set \<Rightarrow> bool" where
  "cerrado d D \<longleftrightarrow> (\<forall>a b. a \<in> D \<longrightarrow> (a, b) \<in> aristas d \<longrightarrow> b \<in> D)"

definition ops_renombrar :: "operacion list" where
  "ops_renombrar =
     [Anadir ''X'' None None, Anadir ''X'' None None, Actualizar 3 (Some ''Y'') None None]"

text \<open>
  The index at which \<^verbatim>\<open>anadirNodo\<close> puts a new child into a list of \<open>n\<close> children.
\<close>

definition posicion_hijo :: "int option \<Rightarrow> nat \<Rightarrow> nat" where
  "posicion_hijo num_hijo n =
     (case num_hijo of None \<Rightarrow> n | Some k \<Rightarrow> if 0 \<le> k \<and> k \<le> int n then nat k else n)"

text \<open>The diagram in which \<^verbatim>\<open>enlazarNodos\<close> starts the propagation.\<close>

definition enlace :: "int \<Rightarrow> int \<Rightarrow> Diagrama \<Rightarrow> Diagrama" where
  "enlace p c d =
     heredar p c
       (modificar c (\<lambda>m. m\<lparr>padres := padres m @ [p]\<rparr>)
          (modificar p (\<lambda>m. m\<lparr>hijos := hijos m @ [c]\<rparr>) d))"

definition invariante :: "Diagrama \<Rightarrow> bool" where
  "invariante d \<longleftrightarrow> bien_formado d \<and> capas_heredadas d"

text \<open>\<^verbatim>\<open>id_padre is not None and id_padre in self.nodos\<close>.\<close>

definition con_padre :: "int option \<Rightarrow> Diagrama \<Rightarrow> bool" where
  "con_padre idp d \<longleftrightarrow> (case idp of None \<Rightarrow> False | Some p \<Rightarrow> p \<in> set (nodos d))"

text \<open>
  The children edges without regard to the dictionary: from any object of the store to
  the members of its list \<^verbatim>\<open>hijos\<close>.
\<close>

definition hijo_de :: "Diagrama \<Rightarrow> (int \<times> int) set" where
  "hijo_de d = {(a, b). b \<in> set (hijos (nodo d a))}"

text \<open>Diagrams used as concrete inputs.\<close>

definition ejemplo_hermanos :: Diagrama where
  "ejemplo_hermanos = the (ejecutar 0 [Anadir ''A'' (Some 1) None, Anadir ''B'' (Some 1) None] ''P'')"

definition ejemplo_con_restriccion :: Diagrama where
  "ejemplo_con_restriccion =
     modificar 2 (\<lambda>m. m\<lparr>restricciones_propias := {''r''}\<rparr>) ejemplo_hermanos"

definition ops_rombo :: "operacion list" where
  "ops_rombo =
     [Anadir ''A'' (Some 1) None, Anadir ''B'' (Some 1) None, Anadir ''C'' (Some 2) None,
      Enlazar 3 4, Eliminar 2]"





definition todas_vacias :: "'a set list \<Rightarrow> bool" where
  "todas_vacias xs \<longleftrightarrow> (\<forall>s \<in> set xs. s = {})"





section \<open>Basic facts about the store\<close>

lemma nodo_modificar [simp]:
  "nodo (modificar k f d) j = (if j = k then f (nodo d k) else nodo d j)"
  by (simp add: nodo_def modificar_def)

lemma nodos_modificar [simp]: "nodos (modificar k f d) = nodos d"
  by (simp add: modificar_def)

lemma siguiente_modificar [simp]: "siguiente_id (modificar k f d) = siguiente_id d"
  by (simp add: modificar_def)

lemma misma_estructura_refl [simp]: "misma_estructura d d"
  by (simp add: misma_estructura_def)

lemma misma_estructura_trans:
  "misma_estructura a b \<Longrightarrow> misma_estructura b c \<Longrightarrow> misma_estructura a c"
  by (simp add: misma_estructura_def)

lemma mismas_capas_refl [simp]: "mismas_capas d d"
  by (simp add: mismas_capas_def)

lemma mismas_capas_trans: "mismas_capas a b \<Longrightarrow> mismas_capas b c \<Longrightarrow> mismas_capas a c"
  by (simp add: mismas_capas_def)

lemma aristas_misma: "misma_estructura d d' \<Longrightarrow> aristas d' = aristas d"
  by (simp add: misma_estructura_def aristas_def)

lemma bien_formado_misma: "misma_estructura d d' \<Longrightarrow> bien_formado d' = bien_formado d"
  by (simp add: bien_formado_def aristas_misma) (simp add: misma_estructura_def)

lemma capas_heredadas_misma:
  "misma_estructura d d' \<Longrightarrow> mismas_capas d d' \<Longrightarrow> capas_heredadas d' = capas_heredadas d"
  by (simp add: capas_heredadas_def heredado_def aristas_misma restricciones_def)
     (simp add: mismas_capas_def)

text \<open>Refreshing the homologs touches no edge and no constraint.\<close>

lemma paso_homologo_estructura:
  "paso_homologo i nom k (hs, d) = (hs', d') \<Longrightarrow> misma_estructura d d' \<and> mismas_capas d d'"
  by (auto simp: paso_homologo_def misma_estructura_def mismas_capas_def split: if_splits)

lemma fold_paso_homologo_estructura:
  "fold (paso_homologo i nom) ks (hs, d) = (hs', d') \<Longrightarrow> misma_estructura d d' \<and> mismas_capas d d'"
proof (induction ks arbitrary: hs d)
  case Nil
  then show ?case by simp
next
  case (Cons k ks)
  obtain hs1 d1 where p: "paso_homologo i nom k (hs, d) = (hs1, d1)"
    by (cases "paso_homologo i nom k (hs, d)")
  with Cons.prems have "fold (paso_homologo i nom) ks (hs1, d1) = (hs', d')" by simp
  from Cons.IH[OF this] paso_homologo_estructura[OF p] show ?case
    by (blast intro: misma_estructura_trans mismas_capas_trans)
qed

lemma actualizarHomologos_estructura:
  "misma_estructura d (actualizarHomologos i nom d) \<and> mismas_capas d (actualizarHomologos i nom d)"
proof (cases "i \<in> set (nodos d)")
  case False
  then show ?thesis by (simp add: actualizarHomologos_def)
next
  case True
  obtain hs d1 where f: "fold (paso_homologo i nom) (nodos d) ({}, d) = (hs, d1)"
    by (cases "fold (paso_homologo i nom) (nodos d) ({}, d)")
  from fold_paso_homologo_estructura[OF f]
  have "misma_estructura d d1" "mismas_capas d d1" by simp_all
  moreover have "misma_estructura d1 (modificar i (\<lambda>m. m\<lparr>homologos := hs\<rparr>) d1)"
    by (simp add: misma_estructura_def)
  moreover have "mismas_capas d1 (modificar i (\<lambda>m. m\<lparr>homologos := hs\<rparr>) d1)"
    by (simp add: mismas_capas_def)
  ultimately show ?thesis using True f
    by (auto simp: actualizarHomologos_def intro: misma_estructura_trans mismas_capas_trans)
qed

text \<open>The fields that the refresh of the homologs and the updates of the store leave alone.\<close>

lemma anadirNodo_fst [simp]: "fst (anadirNodo nom p k d) = siguiente_id d"
  by (simp add: anadirNodo_def Let_def)

lemma hijos_actualizarHomologos [simp]:
  "hijos (nodo (actualizarHomologos i nom d) k) = hijos (nodo d k)"
  using actualizarHomologos_estructura[of d i nom] by (simp add: misma_estructura_def)

lemma padres_actualizarHomologos [simp]:
  "padres (nodo (actualizarHomologos i nom d) k) = padres (nodo d k)"
  using actualizarHomologos_estructura[of d i nom] by (simp add: misma_estructura_def)

lemma nodos_actualizarHomologos [simp]:
  "nodos (actualizarHomologos i nom d) = nodos d"
  using actualizarHomologos_estructura[of d i nom] by (simp add: misma_estructura_def)

lemma siguiente_actualizarHomologos [simp]:
  "siguiente_id (actualizarHomologos i nom d) = siguiente_id d"
  using actualizarHomologos_estructura[of d i nom] by (simp add: misma_estructura_def)

lemma heredadas_actualizarHomologos [simp]:
  "restricciones_heredadas (nodo (actualizarHomologos i nom d) k) = restricciones_heredadas (nodo d k)"
  using actualizarHomologos_estructura[of d i nom] by (simp add: mismas_capas_def)

lemma propias_actualizarHomologos [simp]:
  "restricciones_propias (nodo (actualizarHomologos i nom d) k) = restricciones_propias (nodo d k)"
  using actualizarHomologos_estructura[of d i nom] by (simp add: mismas_capas_def)

lemma nodo_memoria_upd [simp]:
  "nodo (d\<lparr>memoria := (memoria d)(i \<mapsto> n), siguiente_id := s\<rparr>) k = (if k = i then n else nodo d k)"
  by (simp add: nodo_def)

lemma nodo_nodos_upd [simp]: "nodo (d\<lparr>nodos := ks\<rparr>) k = nodo d k"
  by (simp add: nodo_def)

section \<open>Evaluation of concrete runs\<close>

lemmas evaluar = ejecutar_def Diagrama_nuevo_def crear_nodo_raiz_def anadirNodo_def
  modificar_def nodo_def registrar_def Nodo_nuevo_def actualizarHomologos_def paso_homologo_def
  Let_def enlazarNodos_def creaCiclo_def heredar_def restricciones_def combinar_def
  actualizar_nodo_def eliminar_enlace_def quitar_de_padres_def quitar_de_homologos_def
  insertar_def obtenerNodo_def eval_nat_numeral

section \<open>Unlinking and its answer\<close>

lemma eliminar_enlace_error:
  "eliminar_enlace p c d = Inl e \<Longrightarrow> e = HTTPException 404"
  by (auto simp: eliminar_enlace_def Let_def split: if_splits)

text \<open>
  C8 (as amended). The endpoint answers with an error exactly when one of the two ids
  is not registered, and the error is the 404. With both ids registered it answers
  with success, whether the edge was there or not: the child is taken out of the
  parent's children and the parent out of the child's parents where they are present.
\<close>

theorem C8_desenlazar_falla_solo_sin_nodo:
  "((\<exists>e. eliminar_enlace p c d = Inl e) \<longleftrightarrow> p \<notin> set (nodos d) \<or> c \<notin> set (nodos d))
   \<and> (eliminar_enlace p c d = Inl e \<longrightarrow> e = HTTPException 404)
   \<and> (eliminar_enlace p c d = Inr d' \<longrightarrow>
        hijos (nodo d' p) = remove1 c (hijos (nodo d p))
        \<and> padres (nodo d' c) = remove1 p (padres (nodo d c)))"
  by (auto simp: eliminar_enlace_def Let_def remove1_idem split: if_splits)

theorem C8_witness:
  "(\<exists>e. eliminar_enlace 1 7 (Diagrama_nuevo ''P'') = Inl e)
   \<and> 7 \<notin> set (nodos (Diagrama_nuevo ''P''))"
  using C8_desenlazar_falla_solo_sin_nodo[of 1 7 "Diagrama_nuevo ''P''"]
  by (simp add: evaluar)

theorem C8_counterexample:
  "ejecutar 0 [Anadir ''A'' None None] ''P'' \<noteq> None
   \<and> nodos (the (ejecutar 0 [Anadir ''A'' None None] ''P'')) = [1, 2]
   \<and> 2 \<notin> set (hijos (nodo (the (ejecutar 0 [Anadir ''A'' None None] ''P'')) 1))
   \<and> eliminar_enlace 1 2 (the (ejecutar 0 [Anadir ''A'' None None] ''P''))
       = Inr (the (ejecutar 0 [Anadir ''A'' None None] ''P''))"
  by (simp add: evaluar)

section \<open>The position of a new child\<close>

text \<open>
  C9 (as amended). With a registered parent, the new node goes to position
  \<open>childIndex\<close> of the parent's children when \<open>0 \<le> childIndex \<le> len\<close>, and to the
  end (position \<open>len\<close>) otherwise: for no index, for an index above \<open>len\<close> and for every
  negative index. The other children keep their order.
\<close>

theorem C9_posicion_del_hijo:
  assumes "p \<in> set (nodos d)" and "siguiente_id d \<notin> set (nodos d)"
  shows "hijos (nodo (snd (anadirNodo nom (Some p) num_hijo d)) p) =
           take (posicion_hijo num_hijo (length (hijos (nodo d p)))) (hijos (nodo d p))
           @ fst (anadirNodo nom (Some p) num_hijo d)
           # drop (posicion_hijo num_hijo (length (hijos (nodo d p)))) (hijos (nodo d p))"
proof -
  from assms have "p \<noteq> siguiente_id d" by auto
  with assms(1) show ?thesis
    by (cases num_hijo) (simp_all add: anadirNodo_def Let_def posicion_hijo_def insertar_def)
qed

theorem C9_witness:
  "1 \<in> set (nodos (the (ejecutar 0 [Anadir ''A'' (Some 1) None] ''P'')))
   \<and> hijos (nodo (snd (anadirNodo ''B'' (Some 1) (Some 0)
        (the (ejecutar 0 [Anadir ''A'' (Some 1) None] ''P'')))) 1) = [3, 2]"
  using C9_posicion_del_hijo[of 1 "the (ejecutar 0 [Anadir ''A'' (Some 1) None] ''P'')" "''B''" "Some 0"]
  by (simp add: evaluar posicion_hijo_def)

theorem C9_counterexample:
  "ejecutar 0 [Anadir ''A'' (Some 1) None] ''P'' \<noteq> None
   \<and> hijos (nodo (the (ejecutar 0 [Anadir ''A'' (Some 1) None] ''P'')) 1) = [2]
   \<and> fst (anadirNodo ''B'' (Some 1) (Some (- 1)) (the (ejecutar 0 [Anadir ''A'' (Some 1) None] ''P''))) = 3
   \<and> hijos (nodo (snd (anadirNodo ''B'' (Some 1) (Some (- 1))
        (the (ejecutar 0 [Anadir ''A'' (Some 1) None] ''P'')))) 1) = [2, 3]"
  by (simp add: evaluar)


section \<open>Renaming a node and the homologs\<close>

text \<open>
  C2. Two nodes named X are made, both without parent; they are mutual homologs. The
  second is renamed to Y: it forgets the first, but the first keeps the second in its
  homologs, although their names now differ.
\<close>

theorem C2_renombrar_deja_homologo:
  "ejecutar 0 [Anadir ''X'' None None, Anadir ''X'' None None] ''P'' \<noteq> None
   \<and> homologos (nodo (the (ejecutar 0 [Anadir ''X'' None None, Anadir ''X'' None None] ''P'')) 2) = {3}
   \<and> homologos (nodo (the (ejecutar 0 [Anadir ''X'' None None, Anadir ''X'' None None] ''P'')) 3) = {2}
   \<and> ejecutar 0 ops_renombrar ''P'' \<noteq> None
   \<and> nodos (the (ejecutar 0 ops_renombrar ''P'')) = [1, 2, 3]
   \<and> nombre (nodo (the (ejecutar 0 ops_renombrar ''P'')) 2) = ''X''
   \<and> nombre (nodo (the (ejecutar 0 ops_renombrar ''P'')) 3) = ''Y''
   \<and> 3 \<in> homologos (nodo (the (ejecutar 0 ops_renombrar ''P'')) 2)
   \<and> 2 \<notin> homologos (nodo (the (ejecutar 0 ops_renombrar ''P'')) 3)"
  by (simp add: ops_renombrar_def evaluar)

text \<open>
  C4. After the renaming above, node 3 is deleted. The call answers \<open>True\<close> and node 3
  is gone from the dictionary, but node 2, which remains, still lists 3 in its homologs:
  the deletion cleans the nodes that the deleted node lists, and node 3 listed none.
\<close>

theorem C4_eliminar_deja_homologo:
  "ejecutar 1 (ops_renombrar @ [Eliminar 3]) ''P'' \<noteq> None
   \<and> eliminarNodo 1 3 (the (ejecutar 0 ops_renombrar ''P''))
       = Some (True, the (ejecutar 1 (ops_renombrar @ [Eliminar 3]) ''P''))
   \<and> nodos (the (ejecutar 1 (ops_renombrar @ [Eliminar 3]) ''P'')) = [1, 2]
   \<and> obtenerNodo 3 (the (ejecutar 1 (ops_renombrar @ [Eliminar 3]) ''P'')) = None
   \<and> 3 \<in> homologos (nodo (the (ejecutar 1 (ops_renombrar @ [Eliminar 3]) ''P'')) 2)"
  by (simp add: ops_renombrar_def evaluar)

section \<open>The cycle check is a correct search\<close>

text \<open>
  What a call of \<^verbatim>\<open>tiene_descendiente\<close> guarantees: the visited set only grows; an
  answer \<open>True\<close> comes with a path to the target; after an answer \<open>False\<close> the node is
  visited, the target is not among the newly visited nodes, and every newly visited
  node has all its children visited.
\<close>

lemma busca_correcto:
  assumes f: "\<And>h V r V'. f h V = Some (r, V') \<Longrightarrow>
      V \<subseteq> V' \<and> (r \<longrightarrow> (h, t) \<in> (aristas d)\<^sup>*) \<and>
      (\<not> r \<longrightarrow> h \<in> V' \<and> h \<noteq> t \<and> (t \<in> V' \<longrightarrow> t \<in> V) \<and>
         (\<forall>a \<in> V' - V. \<forall>b. (a, b) \<in> aristas d \<longrightarrow> b \<in> V'))"
  shows "busca f hs V = Some (r, V') \<Longrightarrow>
      V \<subseteq> V' \<and> (r \<longrightarrow> (\<exists>h \<in> set hs. (h, t) \<in> (aristas d)\<^sup>*)) \<and>
      (\<not> r \<longrightarrow> set hs \<subseteq> V' \<and> (t \<in> V' \<longrightarrow> t \<in> V) \<and>
         (\<forall>a \<in> V' - V. \<forall>b. (a, b) \<in> aristas d \<longrightarrow> b \<in> V'))"
proof (induction hs arbitrary: V)
  case Nil
  then show ?case by simp
next
  case (Cons h hs)
  from Cons.prems obtain r1 V1 where h1: "f h V = Some (r1, V1)"
    by (cases "f h V") auto
  note p1 = f[OF h1]
  show ?case
  proof (cases r1)
    case True
    with Cons.prems h1 have "r = True" "V' = V1" by simp_all
    with p1 True show ?thesis by auto
  next
    case False
    with Cons.prems h1 have rest: "busca f hs V1 = Some (r, V')" by simp
    note p2 = Cons.IH[OF rest]
    show ?thesis
    proof (cases r)
      case True
      with p1 p2 show ?thesis by auto
    next
      case r: False
      from p1 False have a1: "V \<subseteq> V1" "h \<in> V1" "t \<in> V1 \<longrightarrow> t \<in> V"
        and c1: "\<forall>a \<in> V1 - V. \<forall>b. (a, b) \<in> aristas d \<longrightarrow> b \<in> V1" by simp_all
      from p2 r have a2: "V1 \<subseteq> V'" "set hs \<subseteq> V'" "t \<in> V' \<longrightarrow> t \<in> V1"
        and c2: "\<forall>a \<in> V' - V1. \<forall>b. (a, b) \<in> aristas d \<longrightarrow> b \<in> V'" by simp_all
      have "\<forall>a \<in> V' - V. \<forall>b. (a, b) \<in> aristas d \<longrightarrow> b \<in> V'"
      proof (intro ballI allI impI)
        fix a b assume a: "a \<in> V' - V" and e: "(a, b) \<in> aristas d"
        show "b \<in> V'"
        proof (cases "a \<in> V1")
          case True
          with a c1 e have "b \<in> V1" by blast
          with a2 show ?thesis by blast
        next
          case False
          with a c2 e show ?thesis by blast
        qed
      qed
      with a1 a2 r show ?thesis by auto
    qed
  qed
qed

lemma tiene_descendiente_correcto:
  "tiene_descendiente n d t x V = Some (r, V') \<Longrightarrow>
      V \<subseteq> V' \<and> (r \<longrightarrow> (x, t) \<in> (aristas d)\<^sup>*) \<and>
      (\<not> r \<longrightarrow> x \<in> V' \<and> x \<noteq> t \<and> (t \<in> V' \<longrightarrow> t \<in> V) \<and>
         (\<forall>a \<in> V' - V. \<forall>b. (a, b) \<in> aristas d \<longrightarrow> b \<in> V'))"
proof (induction n arbitrary: x V r V')
  case 0
  then show ?case by simp
next
  case (Suc n)
  show ?case
  proof (cases "x = t")
    case True
    with Suc.prems have "r" "V' = V" by simp_all
    with True show ?thesis by simp
  next
    case xt: False
    show ?thesis
    proof (cases "x \<in> V")
      case True
      with Suc.prems xt have "\<not> r" "V' = V" by simp_all
      with True xt show ?thesis by simp
    next
      case xV: False
      show ?thesis
      proof (cases "x \<in> set (nodos d)")
        case False
        then have ne: "\<And>b. (x, b) \<notin> aristas d" by (simp add: aristas_def)
        from Suc.prems xt xV False have rv: "\<not> r" "V' = insert x V" by simp_all
        have "\<forall>a \<in> V' - V. \<forall>b. (a, b) \<in> aristas d \<longrightarrow> b \<in> V'"
          using rv ne by blast
        with rv xt show ?thesis by blast
      next
        case True
        with Suc.prems xt xV
        have b: "busca (tiene_descendiente n d t) (hijos (nodo d x)) (insert x V) = Some (r, V')"
          by simp
        note p = busca_correcto[of "tiene_descendiente n d t" t d, OF Suc.IH b]
        have hij: "\<And>b. (x, b) \<in> aristas d \<longleftrightarrow> b \<in> set (hijos (nodo d x))"
          using True by (simp add: aristas_def)
        from p have sub: "V \<subseteq> V'" by blast
        show ?thesis
        proof (cases r)
          case True
          with p obtain h where h: "h \<in> set (hijos (nodo d x))" "(h, t) \<in> (aristas d)\<^sup>*"
            by blast
          from h(1) hij have "(x, h) \<in> aristas d" by blast
          from this h(2) have "(x, t) \<in> (aristas d)\<^sup>*"
            by (rule converse_rtrancl_into_rtrancl)
          with sub True show ?thesis by blast
        next
          case False
          with p have q: "insert x V \<subseteq> V'" "set (hijos (nodo d x)) \<subseteq> V'"
            "t \<in> V' \<longrightarrow> t \<in> insert x V"
            "\<forall>a \<in> V' - insert x V. \<forall>b. (a, b) \<in> aristas d \<longrightarrow> b \<in> V'" by blast+
          have "\<forall>a \<in> V' - V. \<forall>b. (a, b) \<in> aristas d \<longrightarrow> b \<in> V'"
          proof (intro ballI allI impI)
            fix a b assume a: "a \<in> V' - V" and e: "(a, b) \<in> aristas d"
            show "b \<in> V'"
            proof (cases "a = x")
              case True
              with e hij q(2) show ?thesis by blast
            next
              case False
              with a q(4) e show ?thesis by blast
            qed
          qed
          moreover from q(3) xt have "t \<in> V' \<longrightarrow> t \<in> V" by blast
          moreover from q(1) have "x \<in> V'" by blast
          ultimately show ?thesis using sub xt False by blast
        qed
      qed
    qed
  qed
qed

lemma creaCiclo_correcto:
  assumes "creaCiclo n p c d = Some r"
  shows "r \<longleftrightarrow> (c, p) \<in> (aristas d)\<^sup>*"
proof -
  from assms obtain V' where t: "tiene_descendiente n d p c {} = Some (r, V')"
    by (auto simp: creaCiclo_def)
  note q = tiene_descendiente_correcto[OF t]
  show ?thesis
  proof (cases r)
    case True
    with q show ?thesis by simp
  next
    case False
    with q have cV: "c \<in> V'" and pV: "p \<notin> V'"
      and cl: "\<forall>a \<in> V'. \<forall>b. (a, b) \<in> aristas d \<longrightarrow> b \<in> V'" by auto
    have "(c, y) \<in> (aristas d)\<^sup>* \<Longrightarrow> y \<in> V'" for y
      by (induction rule: rtrancl_induct) (use cV cl in blast)+
    with pV False show ?thesis by blast
  qed
qed

text \<open>The search returns when the fuel exceeds the number of unvisited keys.\<close>

lemma busca_termina:
  assumes f: "\<And>h V. card (set (nodos d) - V) < n \<Longrightarrow> f h V \<noteq> None"
    and m: "\<And>h V r V'. f h V = Some (r, V') \<Longrightarrow> V \<subseteq> V'"
  shows "card (set (nodos d) - V) < n \<Longrightarrow> busca f hs V \<noteq> None"
proof (induction hs arbitrary: V)
  case Nil
  then show ?case by simp
next
  case (Cons h hs)
  from f[OF Cons.prems, of h] obtain r1 V1 where h1: "f h V = Some (r1, V1)"
    by (cases "f h V") auto
  from m[OF h1] have "set (nodos d) - V1 \<subseteq> set (nodos d) - V" by blast
  then have "card (set (nodos d) - V1) \<le> card (set (nodos d) - V)"
    by (intro card_mono) simp_all
  with Cons.prems have "card (set (nodos d) - V1) < n" by simp
  from Cons.IH[OF this] h1 show ?case by (cases r1) simp_all
qed

lemma tiene_descendiente_termina:
  "card (set (nodos d) - V) < n \<Longrightarrow> tiene_descendiente n d t x V \<noteq> None"
proof (induction n arbitrary: x V)
  case 0
  then show ?case by simp
next
  case (Suc n)
  show ?case
  proof (cases "x \<noteq> t \<and> x \<notin> V \<and> x \<in> set (nodos d)")
    case False
    then show ?thesis by auto
  next
    case True
    then have "set (nodos d) - insert x V = (set (nodos d) - V) - {x}" "x \<in> set (nodos d) - V"
      by auto
    then have "card (set (nodos d) - insert x V) < card (set (nodos d) - V)"
      by (metis card_Diff1_less finite_Diff finite_set)
    with Suc.prems have c: "card (set (nodos d) - insert x V) < n" by simp
    have mono: "\<And>h V r V'. tiene_descendiente n d t h V = Some (r, V') \<Longrightarrow> V \<subseteq> V'"
      using tiene_descendiente_correcto by blast
    have "busca (tiene_descendiente n d t) (hijos (nodo d x)) (insert x V) \<noteq> None"
      using Suc.IH mono c by (rule busca_termina[where d = d and n = n])
    with True show ?thesis by simp
  qed
qed

lemma creaCiclo_termina:
  "length (nodos d) < n \<Longrightarrow> \<exists>r. creaCiclo n p c d = Some r"
proof -
  assume "length (nodos d) < n"
  moreover have "card (set (nodos d) - {}) \<le> length (nodos d)" by (simp add: card_length)
  ultimately have "card (set (nodos d) - {}) < n" by simp
  from tiene_descendiente_termina[OF this, of p c] show ?thesis
    by (auto simp: creaCiclo_def)
qed

section \<open>Layers of constraints\<close>

lemma capas_le_refl [simp]: "capas_le xs xs"
  by (simp add: capas_le_def)

lemma capas_le_trans: "capas_le xs ys \<Longrightarrow> capas_le ys zs \<Longrightarrow> capas_le xs zs"
  unfolding capas_le_def by (meson dual_order.trans less_le_trans)

lemma length_zip_longest [simp]:
  "length (zip_longest f xs ys) = max (length xs) (length ys)"
  by (induction f xs ys rule: zip_longest.induct) simp_all

lemma nth_zip_longest:
  "i < max (length xs) (length ys) \<Longrightarrow>
     zip_longest f xs ys ! i =
       (if i < length xs then xs ! i else f, if i < length ys then ys ! i else f)"
proof (induction f xs ys arbitrary: i rule: zip_longest.induct)
  case (1 f)
  then show ?case by simp
next
  case (2 f x xs)
  then show ?case by (cases i) simp_all
next
  case (3 f y ys)
  then show ?case by (cases i) simp_all
next
  case (4 f x xs y ys)
  then show ?case by (cases i) simp_all
qed

lemma length_combinar [simp]: "length (combinar xs ys) = max (length xs) (length ys)"
  by (simp add: combinar_def)

lemma nth_combinar:
  "i < max (length xs) (length ys) \<Longrightarrow>
     combinar xs ys ! i =
       (if i < length xs then xs ! i else {}) \<union> (if i < length ys then ys ! i else {})"
  by (simp add: combinar_def nth_zip_longest)

lemma capas_le_combinar1: "capas_le xs (combinar xs ys)"
  by (simp add: capas_le_def nth_combinar)

lemma capas_le_combinar2: "capas_le ys (combinar xs ys)"
  by (simp add: capas_le_def nth_combinar)

lemma capas_crecen_refl [simp]: "capas_crecen d d"
  by (simp add: capas_crecen_def)

lemma capas_crecen_trans: "capas_crecen a b \<Longrightarrow> capas_crecen b c \<Longrightarrow> capas_crecen a c"
  unfolding capas_crecen_def by (metis capas_le_trans)

lemma heredar_estructura: "misma_estructura d (heredar p h d)"
  by (simp add: heredar_def misma_estructura_def)

lemma heredar_crecen: "capas_crecen d (heredar p h d)"
  by (simp add: heredar_def capas_crecen_def capas_le_combinar2)

lemma heredar_heredado: "p \<noteq> h \<Longrightarrow> heredado (heredar p h d) p h"
  by (simp add: heredar_def heredado_def capas_le_combinar1 restricciones_def)

lemma heredado_crecen:
  assumes "heredado d u v" and "capas_crecen d d'"
    and "restricciones_heredadas (nodo d' u) = restricciones_heredadas (nodo d u)"
  shows "heredado d' u v"
proof -
  from assms(2,3) have "restricciones (nodo d' u) = restricciones (nodo d u)"
    by (simp add: restricciones_def capas_crecen_def)
  moreover from assms(2)
  have "capas_le (restricciones_heredadas (nodo d v)) (restricciones_heredadas (nodo d' v))"
    by (simp add: capas_crecen_def)
  ultimately show ?thesis using assms(1) by (auto simp: heredado_def intro: capas_le_trans)
qed

lemma heredar_otro: "u \<noteq> h \<Longrightarrow>
    restricciones_heredadas (nodo (heredar p h d) u) = restricciones_heredadas (nodo d u)"
  by (simp add: heredar_def)

section \<open>Loops\<close>

lemma bucle_invariante:
  assumes "bucle f xs s = Some s'" and "P s"
    and "\<And>x a b. x \<in> set xs \<Longrightarrow> P a \<Longrightarrow> f x a = Some b \<Longrightarrow> P b"
  shows "P s'"
  using assms
proof (induction xs arbitrary: s)
  case Nil
  then show ?case by simp
next
  case (Cons x xs)
  from Cons.prems(1) obtain s1 where s1: "f x s = Some s1" and r: "bucle f xs s1 = Some s'"
    by (cases "f x s") auto
  from Cons.prems(3)[of x s s1] Cons.prems(2) s1 have "P s1" by simp
  show ?case
  proof (rule Cons.IH[OF r \<open>P s1\<close>])
    fix y a b assume "y \<in> set xs" "P a" "f y a = Some b"
    with Cons.prems(3)[of y a b] show "P b" by simp
  qed
qed

lemma bucle_termina:
  assumes "P s"
    and "\<And>x a. x \<in> set xs \<Longrightarrow> P a \<Longrightarrow> \<exists>b. f x a = Some b \<and> P b"
  shows "\<exists>s'. bucle f xs s = Some s'"
  using assms
proof (induction xs arbitrary: s)
  case Nil
  then show ?case by simp
next
  case (Cons x xs)
  from Cons.prems(2)[of x s] Cons.prems(1) obtain s1 where s1: "f x s = Some s1" "P s1"
    by auto
  have "\<exists>s'. bucle f xs s1 = Some s'"
  proof (rule Cons.IH[OF s1(2)])
    fix y a assume "y \<in> set xs" "P a"
    with Cons.prems(2)[of y a] show "\<exists>b. f y a = Some b \<and> P b" by simp
  qed
  with s1 show ?case by simp
qed

section \<open>Propagation of constraints\<close>

text \<open>A propagation that returns has changed inherited layers only, and only upwards.\<close>

lemma propagar_crecen:
  "propagarRestricciones n i d = Some d' \<Longrightarrow> misma_estructura d d' \<and> capas_crecen d d'"
proof (induction n arbitrary: i d d')
  case 0
  then show ?case by simp
next
  case (Suc n)
  show ?case
  proof (cases "i \<in> set (nodos d)")
    case False
    with Suc.prems show ?thesis by simp
  next
    case True
    with Suc.prems
    have b: "bucle (\<lambda>h s. propagarRestricciones n h (heredar i h s)) (hijos (nodo d i)) d = Some d'"
      by simp
    show ?thesis
    proof (rule bucle_invariante[OF b, where P = "\<lambda>s. misma_estructura d s \<and> capas_crecen d s"])
      show "misma_estructura d d \<and> capas_crecen d d" by simp
    next
      fix x a b
      assume a: "misma_estructura d a \<and> capas_crecen d a"
        and s: "propagarRestricciones n x (heredar i x a) = Some b"
      from Suc.IH[OF s] have "misma_estructura (heredar i x a) b" "capas_crecen (heredar i x a) b"
        by simp_all
      with a heredar_estructura[of a i x] heredar_crecen[of a i x]
      show "misma_estructura d b \<and> capas_crecen d b"
        by (blast intro: misma_estructura_trans capas_crecen_trans)
    qed
  qed
qed

section \<open>Descendants\<close>

lemma descendientes_misma: "misma_estructura d d' \<Longrightarrow> descendientes d' x = descendientes d x"
  by (simp add: descendientes_def aristas_misma)

lemma descendientes_refl [simp]: "x \<in> descendientes d x"
  by (simp add: descendientes_def)

lemma finite_aristas: "finite (aristas d)"
proof -
  have "aristas d \<subseteq> set (nodos d) \<times> (\<Union>k \<in> set (nodos d). set (hijos (nodo d k)))"
    by (auto simp: aristas_def)
  moreover have "finite (set (nodos d) \<times> (\<Union>k \<in> set (nodos d). set (hijos (nodo d k))))"
    by simp
  ultimately show ?thesis by (rule finite_subset)
qed

lemma finite_descendientes: "finite (descendientes d x)"
proof -
  have "descendientes d x \<subseteq> insert x (Range (aristas d))"
    unfolding descendientes_def by (auto elim: rtranclE)
  moreover have "finite (insert x (Range (aristas d)))"
    using finite_aristas by (simp add: finite_Range)
  ultimately show ?thesis by (rule finite_subset)
qed

lemma descendientes_hijo:
  "(x, c) \<in> aristas d \<Longrightarrow> descendientes d c \<subseteq> descendientes d x"
  unfolding descendientes_def by (auto intro: converse_rtrancl_into_rtrancl)

lemma descendientes_aciclico:
  assumes "acyclic (aristas d)" and "(x, c) \<in> aristas d"
  shows "x \<notin> descendientes d c"
proof
  assume "x \<in> descendientes d c"
  then have "(c, x) \<in> (aristas d)\<^sup>*" by (simp add: descendientes_def)
  with assms(2) have "(x, x) \<in> (aristas d)\<^sup>+" by (rule rtrancl_into_trancl2)
  with assms(1) show False by (simp add: acyclic_def)
qed

lemma card_descendientes_hijo:
  assumes "acyclic (aristas d)" and "(x, c) \<in> aristas d"
  shows "card (descendientes d c) < card (descendientes d x)"
proof -
  have "descendientes d c \<subset> descendientes d x"
    using descendientes_hijo[OF assms(2)] descendientes_aciclico[OF assms] descendientes_refl[of x d]
    by blast
  then show ?thesis by (simp add: finite_descendientes psubset_card_mono)
qed

lemma card_descendientes_pos: "0 < card (descendientes d x)"
proof -
  have "descendientes d x \<noteq> {}" using descendientes_refl[of x d] by blast
  with finite_descendientes[of d x] show ?thesis by (simp add: card_gt_0_iff)
qed

section \<open>Propagation restores what every edge hands down\<close>

lemma bucle_propagar_heredado:
  assumes IH: "\<And>h s s' u v. propagarRestricciones n h s = Some s' \<Longrightarrow> acyclic (aristas s) \<Longrightarrow>
      (u, v) \<in> aristas s \<Longrightarrow> heredado s u v \<or> u = h \<Longrightarrow> heredado s' u v"
  shows "bucle (\<lambda>h s. propagarRestricciones n h (heredar i h s)) cs s = Some s' \<Longrightarrow>
      acyclic (aristas s) \<Longrightarrow> (u, v) \<in> aristas s \<Longrightarrow>
      heredado s u v \<or> (u = i \<and> v \<in> set cs) \<Longrightarrow> heredado s' u v"
proof (induction cs arbitrary: s)
  case Nil
  then show ?case by simp
next
  case (Cons c cs)
  let ?s1 = "heredar i c s"
  from Cons.prems(1) obtain s2 where p: "propagarRestricciones n c ?s1 = Some s2"
    and r: "bucle (\<lambda>h s. propagarRestricciones n h (heredar i h s)) cs s2 = Some s'"
    by (cases "propagarRestricciones n c ?s1") auto
  have a1: "aristas ?s1 = aristas s" by (rule aristas_misma[OF heredar_estructura])
  from propagar_crecen[OF p] have a2: "aristas s2 = aristas ?s1" by (simp add: aristas_misma)
  have ac1: "acyclic (aristas ?s1)" and e1: "(u, v) \<in> aristas ?s1"
    using a1 Cons.prems by simp_all
  have "heredado s2 u v \<or> (u = i \<and> v \<in> set cs)"
  proof (cases "u = i \<and> v \<in> set cs")
    case True
    then show ?thesis by simp
  next
    case False
    have "heredado ?s1 u v \<or> u = c"
    proof (cases "heredado s u v")
      case True
      show ?thesis
      proof (cases "u = c")
        case False
        from heredado_crecen[OF True heredar_crecen heredar_otro[OF False]] show ?thesis by simp
      qed simp
    next
      case h: False
      with Cons.prems(4) False have uv: "u = i" "v = c" by auto
      have "i \<noteq> c"
      proof
        assume "i = c"
        with uv Cons.prems(3) have "(c, c) \<in> (aristas s)\<^sup>+" by auto
        with Cons.prems(2) show False by (simp add: acyclic_def)
      qed
      from heredar_heredado[OF this] uv show ?thesis by simp
    qed
    from IH[OF p ac1 e1 this] show ?thesis by simp
  qed
  moreover have "acyclic (aristas s2)" "(u, v) \<in> aristas s2"
    using a1 a2 Cons.prems by simp_all
  ultimately show ?case using Cons.IH[OF r] by blast
qed

lemma propagar_heredado:
  "propagarRestricciones n i d = Some d' \<Longrightarrow> acyclic (aristas d) \<Longrightarrow>
     (u, v) \<in> aristas d \<Longrightarrow> heredado d u v \<or> u = i \<Longrightarrow> heredado d' u v"
proof (induction n arbitrary: i d d' u v)
  case 0
  then show ?case by simp
next
  case (Suc n)
  show ?case
  proof (cases "i \<in> set (nodos d)")
    case False
    with Suc.prems(3) have "u \<noteq> i" by (auto simp: aristas_def)
    with Suc.prems False show ?thesis by simp
  next
    case True
    with Suc.prems(1)
    have b: "bucle (\<lambda>h s. propagarRestricciones n h (heredar i h s)) (hijos (nodo d i)) d = Some d'"
      by simp
    have "heredado d u v \<or> (u = i \<and> v \<in> set (hijos (nodo d i)))"
      using Suc.prems(3,4) by (auto simp: aristas_def)
    from bucle_propagar_heredado[of n, OF Suc.IH b Suc.prems(2,3) this] show ?thesis .
  qed
qed

text \<open>On an acyclic diagram the propagation returns, with fuel for the descendants.\<close>

lemma propagar_termina:
  "acyclic (aristas d) \<Longrightarrow> card (descendientes d i) \<le> n \<Longrightarrow>
     \<exists>d'. propagarRestricciones n i d = Some d'"
proof (induction n arbitrary: i d)
  case 0
  with card_descendientes_pos[of d i] show ?case by simp
next
  case (Suc n)
  show ?case
  proof (cases "i \<in> set (nodos d)")
    case False
    then show ?thesis by simp
  next
    case True
    have "\<exists>s'. bucle (\<lambda>h s. propagarRestricciones n h (heredar i h s)) (hijos (nodo d i)) d = Some s'"
    proof (rule bucle_termina[where P = "\<lambda>s. misma_estructura d s"])
      show "misma_estructura d d" by simp
    next
      fix x a
      assume x: "x \<in> set (hijos (nodo d i))" and a: "misma_estructura d a"
      let ?a1 = "heredar i x a"
      have m: "misma_estructura d ?a1"
        using a heredar_estructura by (rule misma_estructura_trans)
      from x True have "(i, x) \<in> aristas d" by (simp add: aristas_def)
      from card_descendientes_hijo[OF Suc.prems(1) this] Suc.prems(2)
      have "card (descendientes d x) \<le> n" by simp
      then have c: "card (descendientes ?a1 x) \<le> n" by (simp add: descendientes_misma[OF m])
      have "acyclic (aristas ?a1)" using Suc.prems(1) by (simp add: aristas_misma[OF m])
      from Suc.IH[OF this c] obtain b where b: "propagarRestricciones n x ?a1 = Some b" by blast
      from propagar_crecen[OF b] m have "misma_estructura d b"
        by (blast intro: misma_estructura_trans)
      with b show "\<exists>b. propagarRestricciones n x ?a1 = Some b \<and> misma_estructura d b" by blast
    qed
    with True show ?thesis by simp
  qed
qed

section \<open>Linking\<close>

lemma enlazarNodos_exito:
  assumes "enlazarNodos fuel p c d = Some (True, d')"
  shows "p \<in> set (nodos d)" and "c \<in> set (nodos d)" and "c \<notin> set (hijos (nodo d p))"
    and "creaCiclo fuel p c d = Some False"
    and "propagarRestricciones fuel c (enlace p c d) = Some d'"
  using assms
  by (auto simp: enlazarNodos_def enlace_def Let_def split: if_splits option.splits bool.splits)

lemma enlazarNodos_fallo:
  "enlazarNodos fuel p c d = Some (False, d') \<Longrightarrow> d' = d"
  by (auto simp: enlazarNodos_def Let_def split: if_splits option.splits bool.splits)

lemma nodos_enlace [simp]: "nodos (enlace p c d) = nodos d"
  by (simp add: enlace_def heredar_def)

lemma siguiente_enlace [simp]: "siguiente_id (enlace p c d) = siguiente_id d"
  by (simp add: enlace_def heredar_def)

lemma hijos_enlace:
  "hijos (nodo (enlace p c d) k) = (if k = p then hijos (nodo d p) @ [c] else hijos (nodo d k))"
  by (simp add: enlace_def heredar_def)

lemma padres_enlace:
  "padres (nodo (enlace p c d) k) = (if k = c then padres (nodo d c) @ [p] else padres (nodo d k))"
  by (simp add: enlace_def heredar_def)

lemma propias_enlace [simp]:
  "restricciones_propias (nodo (enlace p c d) k) = restricciones_propias (nodo d k)"
  by (simp add: enlace_def heredar_def)

lemma heredadas_enlace:
  "p \<noteq> c \<Longrightarrow> restricciones_heredadas (nodo (enlace p c d) k) =
     (if k = c then combinar (restricciones (nodo d p)) (restricciones_heredadas (nodo d c))
      else restricciones_heredadas (nodo d k))"
  by (simp add: enlace_def heredar_def restricciones_def)

lemma aristas_enlace:
  "p \<in> set (nodos d) \<Longrightarrow> aristas (enlace p c d) = insert (p, c) (aristas d)"
  by (auto simp: aristas_def hijos_enlace split: if_splits)

lemma enlace_crecen: "p \<noteq> c \<Longrightarrow> capas_crecen d (enlace p c d)"
  by (simp add: capas_crecen_def heredadas_enlace capas_le_combinar2)

lemma creaCiclo_distintos: "creaCiclo fuel p c d = Some False \<Longrightarrow> p \<noteq> c"
  using creaCiclo_correcto[of fuel p c d False] by auto

text \<open>The propagation from \<open>i\<close> leaves alone every node that is not a descendant of \<open>i\<close>.\<close>

lemma propagar_fuera:
  "propagarRestricciones n i d = Some d' \<Longrightarrow> k \<notin> descendientes d i \<Longrightarrow>
     restricciones_heredadas (nodo d' k) = restricciones_heredadas (nodo d k)"
proof (induction n arbitrary: i d d')
  case 0
  then show ?case by simp
next
  case (Suc n)
  show ?case
  proof (cases "i \<in> set (nodos d)")
    case False
    with Suc.prems show ?thesis by simp
  next
    case True
    with Suc.prems(1)
    have b: "bucle (\<lambda>h s. propagarRestricciones n h (heredar i h s)) (hijos (nodo d i)) d = Some d'"
      by simp
    have "misma_estructura d d' \<and>
        restricciones_heredadas (nodo d' k) = restricciones_heredadas (nodo d k)"
    proof (rule bucle_invariante[OF b, where P = "\<lambda>s. misma_estructura d s \<and>
        restricciones_heredadas (nodo s k) = restricciones_heredadas (nodo d k)"])
      show "misma_estructura d d \<and>
        restricciones_heredadas (nodo d k) = restricciones_heredadas (nodo d k)" by simp
    next
      fix x a b
      assume x: "x \<in> set (hijos (nodo d i))"
        and a: "misma_estructura d a \<and>
          restricciones_heredadas (nodo a k) = restricciones_heredadas (nodo d k)"
        and s: "propagarRestricciones n x (heredar i x a) = Some b"
      let ?a1 = "heredar i x a"
      have m: "misma_estructura d ?a1"
        using a heredar_estructura by (blast intro: misma_estructura_trans)
      from x True have e: "(i, x) \<in> aristas d" by (simp add: aristas_def)
      from descendientes_hijo[OF e] Suc.prems(2) have kx: "k \<notin> descendientes d x" by blast
      then have "k \<noteq> x" using descendientes_refl[of x d] by blast
      then have h1: "restricciones_heredadas (nodo ?a1 k) = restricciones_heredadas (nodo a k)"
        by (rule heredar_otro)
      from kx have "k \<notin> descendientes ?a1 x" by (simp add: descendientes_misma[OF m])
      from Suc.IH[OF s this] h1 a
      have "restricciones_heredadas (nodo b k) = restricciones_heredadas (nodo d k)" by simp
      moreover from propagar_crecen[OF s] m have "misma_estructura d b"
        by (blast intro: misma_estructura_trans)
      ultimately show "misma_estructura d b \<and>
          restricciones_heredadas (nodo b k) = restricciones_heredadas (nodo d k)" by simp
    qed
    then show ?thesis by simp
  qed
qed

lemma no_desciende_tras_enlace:
  assumes "(c, p) \<notin> (aristas d)\<^sup>*" and "p \<in> set (nodos d)"
  shows "p \<notin> descendientes (enlace p c d) c"
  using assms by (simp add: descendientes_def aristas_enlace rtrancl_insert)

lemma capas_le_nth:
  "capas_le xs ys \<Longrightarrow> i < length xs \<Longrightarrow> i < length ys \<and> xs ! i \<subseteq> ys ! i"
  by (simp add: capas_le_def)

text \<open>
  C7. When \<^verbatim>\<open>enlazarNodos\<close> answers \<open>True\<close>: at every node, the child and its
  descendants included, every inherited layer of before is still there and contains what
  it contained; the parent's full stack is what it was; and every layer of that stack is
  contained in the layer of the same index of the child's inherited layers.
\<close>

theorem C7_enlazar_capas_crecen:
  assumes "enlazarNodos fuel p c d = Some (True, d')"
  shows "(\<forall>k i. i < length (restricciones_heredadas (nodo d k)) \<longrightarrow>
            i < length (restricciones_heredadas (nodo d' k)) \<and>
            restricciones_heredadas (nodo d k) ! i \<subseteq> restricciones_heredadas (nodo d' k) ! i)
       \<and> restricciones (nodo d' p) = restricciones (nodo d p)
       \<and> (\<forall>i. i < length (restricciones (nodo d p)) \<longrightarrow>
            i < length (restricciones_heredadas (nodo d' c)) \<and>
            restricciones (nodo d p) ! i \<subseteq> restricciones_heredadas (nodo d' c) ! i)"
proof -
  note e = enlazarNodos_exito[OF assms]
  from e(4) have pc: "p \<noteq> c" by (rule creaCiclo_distintos)
  from creaCiclo_correcto[OF e(4)] have nc: "(c, p) \<notin> (aristas d)\<^sup>*" by simp
  from propagar_crecen[OF e(5)] have cr: "capas_crecen (enlace p c d) d'" by simp
  with enlace_crecen[OF pc] have cr0: "capas_crecen d d'" by (rule capas_crecen_trans)
  have g1: "\<forall>k i. i < length (restricciones_heredadas (nodo d k)) \<longrightarrow>
            i < length (restricciones_heredadas (nodo d' k)) \<and>
            restricciones_heredadas (nodo d k) ! i \<subseteq> restricciones_heredadas (nodo d' k) ! i"
    using cr0 capas_le_nth unfolding capas_crecen_def by blast
  from propagar_fuera[OF e(5) no_desciende_tras_enlace[OF nc e(1)]] pc
  have "restricciones_heredadas (nodo d' p) = restricciones_heredadas (nodo d p)"
    by (simp add: heredadas_enlace)
  moreover from cr0 have "restricciones_propias (nodo d' p) = restricciones_propias (nodo d p)"
    by (simp add: capas_crecen_def)
  ultimately have g2: "restricciones (nodo d' p) = restricciones (nodo d p)"
    by (simp add: restricciones_def)
  have "capas_le (restricciones (nodo d p)) (restricciones_heredadas (nodo (enlace p c d) c))"
    using pc by (simp add: heredadas_enlace capas_le_combinar1)
  moreover from cr have "capas_le (restricciones_heredadas (nodo (enlace p c d) c))
      (restricciones_heredadas (nodo d' c))" by (simp add: capas_crecen_def)
  ultimately have "capas_le (restricciones (nodo d p)) (restricciones_heredadas (nodo d' c))"
    by (rule capas_le_trans)
  then have g3: "\<forall>i. i < length (restricciones (nodo d p)) \<longrightarrow>
            i < length (restricciones_heredadas (nodo d' c)) \<and>
            restricciones (nodo d p) ! i \<subseteq> restricciones_heredadas (nodo d' c) ! i"
    using capas_le_nth by blast
  from g1 g2 g3 show ?thesis by blast
qed

section \<open>A new diagram and a new node keep the invariant\<close>

lemma aristas_vacias: "(\<And>k. k \<in> set (nodos d) \<Longrightarrow> hijos (nodo d k) = []) \<Longrightarrow> aristas d = {}"
  by (auto simp: aristas_def)

lemma invariante_Diagrama_nuevo: "invariante (Diagrama_nuevo nom)"
proof -
  let ?d = "Diagrama_nuevo nom"
  have n: "nodos ?d = [1]" "siguiente_id ?d = 2"
    by (simp_all add: Diagrama_nuevo_def crear_nodo_raiz_def Let_def registrar_def)
  have h: "hijos (nodo ?d 1) = []" "padres (nodo ?d 1) = []"
    by (simp_all add: Diagrama_nuevo_def crear_nodo_raiz_def Let_def registrar_def Nodo_nuevo_def
        nodo_def modificar_def)
  from n h have a: "aristas ?d = {}" by (auto simp: aristas_def)
  from n h a show ?thesis
    by (simp add: invariante_def bien_formado_def capas_heredadas_def acyclic_def)
qed

lemma distinct_medio: "distinct (as @ x # bs) \<longleftrightarrow> x \<notin> set (as @ bs) \<and> distinct (as @ bs)"
  by auto

lemma set_medio: "set (as @ x # bs) = insert x (set (as @ bs))"
  by auto

lemma set_insertar [simp]: "set (insertar k x xs) = insert x (set xs)"
  unfolding insertar_def set_medio append_take_drop_id ..

lemma distinct_insertar [simp]: "distinct (insertar k x xs) \<longleftrightarrow> x \<notin> set xs \<and> distinct xs"
  unfolding insertar_def distinct_medio append_take_drop_id ..

text \<open>The fields of the diagram that \<^verbatim>\<open>anadirNodo\<close> returns.\<close>

lemma nodos_anadirNodo:
  "nodos (snd (anadirNodo nom idp k d)) = registrar (siguiente_id d) (nodos d)"
  by (simp add: anadirNodo_def Let_def split: option.splits)

lemma siguiente_anadirNodo:
  "siguiente_id (snd (anadirNodo nom idp k d)) = siguiente_id d + 1"
  by (simp add: anadirNodo_def Let_def split: option.splits)

lemma padres_anadirNodo:
  "padres (nodo (snd (anadirNodo nom idp k d)) j) =
     (if j = siguiente_id d then (if con_padre idp d then [the idp] else [])
      else padres (nodo d j))"
  by (simp add: anadirNodo_def Let_def con_padre_def Nodo_nuevo_def split: option.splits)

lemma hijos_anadirNodo_set:
  assumes "siguiente_id d \<notin> set (nodos d)"
  shows "set (hijos (nodo (snd (anadirNodo nom idp k d)) j)) =
     (if j = siguiente_id d then {}
      else if con_padre idp d \<and> j = the idp then insert (siguiente_id d) (set (hijos (nodo d j)))
      else set (hijos (nodo d j)))"
  using assms
  by (auto simp: anadirNodo_def Let_def con_padre_def Nodo_nuevo_def split: option.splits)

lemma hijos_anadirNodo_distinct:
  assumes "siguiente_id d \<notin> set (nodos d)"
  shows "distinct (hijos (nodo (snd (anadirNodo nom idp k d)) j)) \<longleftrightarrow>
     (if j = siguiente_id d then True
      else if con_padre idp d \<and> j = the idp
           then siguiente_id d \<notin> set (hijos (nodo d j)) \<and> distinct (hijos (nodo d j))
      else distinct (hijos (nodo d j)))"
  using assms
  by (auto simp: anadirNodo_def Let_def con_padre_def Nodo_nuevo_def split: option.splits)

lemma propias_anadirNodo:
  "restricciones_propias (nodo (snd (anadirNodo nom idp k d)) j) =
     (if j = siguiente_id d then {} else restricciones_propias (nodo d j))"
  by (simp add: anadirNodo_def Let_def Nodo_nuevo_def split: option.splits)

lemma heredadas_anadirNodo:
  assumes "siguiente_id d \<notin> set (nodos d)"
  shows "restricciones_heredadas (nodo (snd (anadirNodo nom idp k d)) j) =
     (if j = siguiente_id d
      then (if con_padre idp d then restricciones (nodo d (the idp)) else [])
      else restricciones_heredadas (nodo d j))"
  using assms
  by (auto simp: anadirNodo_def Let_def con_padre_def Nodo_nuevo_def restricciones_def
      split: option.splits)

section \<open>What the structural invariant gives\<close>

lemma bien_formado_fresco:
  assumes "bien_formado d"
  shows "siguiente_id d \<notin> set (nodos d)"
proof
  assume "siguiente_id d \<in> set (nodos d)"
  moreover from assms have "\<forall>k \<in> set (nodos d). k < siguiente_id d"
    unfolding bien_formado_def by blast
  ultimately have "siguiente_id d < siguiente_id d" by blast
  then show False by simp
qed

lemma bien_formado_hijo:
  "bien_formado d \<Longrightarrow> k \<in> set (nodos d) \<Longrightarrow> c \<in> set (hijos (nodo d k)) \<Longrightarrow>
     c \<in> set (nodos d) \<and> k \<in> set (padres (nodo d c))"
  unfolding bien_formado_def by blast

lemma bien_formado_padre:
  "bien_formado d \<Longrightarrow> k \<in> set (nodos d) \<Longrightarrow> p \<in> set (padres (nodo d k)) \<Longrightarrow>
     p \<in> set (nodos d) \<and> k \<in> set (hijos (nodo d p))"
  unfolding bien_formado_def by blast

lemma bien_formado_distinct:
  "bien_formado d \<Longrightarrow> k \<in> set (nodos d) \<Longrightarrow>
     distinct (hijos (nodo d k)) \<and> distinct (padres (nodo d k))"
  unfolding bien_formado_def by blast

lemma bien_formado_aciclico: "bien_formado d \<Longrightarrow> acyclic (aristas d)"
  unfolding bien_formado_def by blast

lemma aristas_nodos:
  assumes "bien_formado d" and "(a, b) \<in> aristas d"
  shows "a \<in> set (nodos d) \<and> b \<in> set (nodos d)"
proof -
  from assms(2) have a: "a \<in> set (nodos d)" and b: "b \<in> set (hijos (nodo d a))"
    by (simp_all add: aristas_def)
  from bien_formado_hijo[OF assms(1) a b] a show ?thesis by simp
qed

lemma rtrancl_aristas_nodos:
  assumes "bien_formado d" and "(a, b) \<in> (aristas d)\<^sup>*" and "a \<in> set (nodos d)"
  shows "b \<in> set (nodos d)"
  using assms(2,3)
  by (induction rule: rtrancl_induct) (use assms(1) aristas_nodos in blast)+

lemma descendientes_nodos:
  "bien_formado d \<Longrightarrow> x \<in> set (nodos d) \<Longrightarrow> descendientes d x \<subseteq> set (nodos d)"
  using rtrancl_aristas_nodos by (auto simp: descendientes_def)

section \<open>Adding a node keeps the invariant\<close>

lemma aristas_anadirNodo:
  assumes "bien_formado d"
  shows "aristas (snd (anadirNodo nom idp k d)) =
     (if con_padre idp d then insert (the idp, siguiente_id d) (aristas d) else aristas d)"
proof -
  note f = bien_formado_fresco[OF assms]
  have n: "set (nodos (snd (anadirNodo nom idp k d))) = insert (siguiente_id d) (set (nodos d))"
    using f by (simp add: nodos_anadirNodo registrar_def)
  have p: "con_padre idp d \<Longrightarrow> the idp \<in> set (nodos d)"
    by (auto simp: con_padre_def split: option.splits)
  show ?thesis
    unfolding aristas_def n hijos_anadirNodo_set[OF f]
    using f p by (auto split: if_splits)
qed

lemma bien_formado_anadirNodo:
  assumes "bien_formado d"
  shows "bien_formado (snd (anadirNodo nom idp k d))"
proof -
  let ?i = "siguiente_id d"
  let ?d' = "snd (anadirNodo nom idp k d)"
  note f = bien_formado_fresco[OF assms]
  have n: "set (nodos ?d') = insert ?i (set (nodos d))"
    using f by (simp add: nodos_anadirNodo registrar_def)
  have p: "con_padre idp d \<Longrightarrow> the idp \<in> set (nodos d) \<and> the idp \<noteq> ?i"
    using f by (auto simp: con_padre_def split: option.splits)
  have nh: "\<And>j. j \<in> set (nodos d) \<Longrightarrow> ?i \<notin> set (hijos (nodo d j))"
    using f bien_formado_hijo[OF assms] by blast
  from assms have lt: "\<forall>j \<in> set (nodos d). j < siguiente_id d"
    unfolding bien_formado_def by blast
  have c1: "\<forall>j \<in> set (nodos ?d'). j < siguiente_id ?d'"
    using lt by (auto simp: n siguiente_anadirNodo)
  have c2: "\<forall>j \<in> set (nodos ?d'). distinct (hijos (nodo ?d' j)) \<and> distinct (padres (nodo ?d' j))"
    using bien_formado_distinct[OF assms] nh p
    by (auto simp: n hijos_anadirNodo_distinct[OF f] padres_anadirNodo)
  have c3: "\<forall>j \<in> set (nodos ?d'). \<forall>c \<in> set (hijos (nodo ?d' j)).
        c \<in> set (nodos ?d') \<and> j \<in> set (padres (nodo ?d' c))"
  proof (intro ballI)
    fix j c assume j: "j \<in> set (nodos ?d')" and c: "c \<in> set (hijos (nodo ?d' j))"
    from c have ji: "j \<noteq> ?i" by (auto simp: hijos_anadirNodo_set[OF f] split: if_splits)
    with j n have jn: "j \<in> set (nodos d)" by simp
    show "c \<in> set (nodos ?d') \<and> j \<in> set (padres (nodo ?d' c))"
    proof (cases "c = ?i")
      case True
      with c ji nh[OF jn] have "con_padre idp d \<and> j = the idp"
        by (auto simp: hijos_anadirNodo_set[OF f] split: if_splits)
      with True show ?thesis by (simp add: n padres_anadirNodo)
    next
      case False
      with c ji have "c \<in> set (hijos (nodo d j))"
        by (auto simp: hijos_anadirNodo_set[OF f] split: if_splits)
      from bien_formado_hijo[OF assms jn this] False show ?thesis
        by (simp add: n padres_anadirNodo)
    qed
  qed
  have c4: "\<forall>j \<in> set (nodos ?d'). \<forall>q \<in> set (padres (nodo ?d' j)).
        q \<in> set (nodos ?d') \<and> j \<in> set (hijos (nodo ?d' q))"
  proof (intro ballI)
    fix j q assume j: "j \<in> set (nodos ?d')" and q: "q \<in> set (padres (nodo ?d' j))"
    show "q \<in> set (nodos ?d') \<and> j \<in> set (hijos (nodo ?d' q))"
    proof (cases "j = ?i")
      case True
      with q have "con_padre idp d \<and> q = the idp"
        by (auto simp: padres_anadirNodo split: if_splits)
      with True p show ?thesis by (simp add: n hijos_anadirNodo_set[OF f])
    next
      case False
      with j n have jn: "j \<in> set (nodos d)" by simp
      from q False have "q \<in> set (padres (nodo d j))" by (simp add: padres_anadirNodo)
      from bien_formado_padre[OF assms jn this] f show ?thesis
        by (auto simp: n hijos_anadirNodo_set[OF f])
    qed
  qed
  have c5: "acyclic (aristas ?d')"
  proof (cases "con_padre idp d")
    case False
    with bien_formado_aciclico[OF assms] show ?thesis by (simp add: aristas_anadirNodo[OF assms])
  next
    case True
    have "(?i, the idp) \<notin> (aristas d)\<^sup>*"
    proof
      assume "(?i, the idp) \<in> (aristas d)\<^sup>*"
      then show False
      proof (cases rule: converse_rtranclE)
        case base
        with p[OF True] show ?thesis by simp
      next
        case (step y)
        then have "?i \<in> set (nodos d)" by (simp add: aristas_def)
        with f show ?thesis by simp
      qed
    qed
    with bien_formado_aciclico[OF assms] True show ?thesis
      by (simp add: aristas_anadirNodo[OF assms])
  qed
  from c1 c2 c3 c4 c5 show ?thesis unfolding bien_formado_def by blast
qed

lemma capas_heredadas_anadirNodo:
  assumes "bien_formado d" and "capas_heredadas d"
  shows "capas_heredadas (snd (anadirNodo nom idp k d))"
proof -
  let ?i = "siguiente_id d"
  let ?d' = "snd (anadirNodo nom idp k d)"
  note f = bien_formado_fresco[OF assms(1)]
  have r: "\<And>j. j \<noteq> ?i \<Longrightarrow> restricciones (nodo ?d' j) = restricciones (nodo d j)"
    by (simp add: restricciones_def heredadas_anadirNodo[OF f] propias_anadirNodo)
  have "heredado ?d' u v" if e: "(u, v) \<in> aristas ?d'" for u v
  proof (cases "(u, v) \<in> aristas d")
    case True
    from aristas_nodos[OF assms(1) True] f have "u \<noteq> ?i" "v \<noteq> ?i" by auto
    moreover from assms(2) True have "heredado d u v" by (simp add: capas_heredadas_def)
    ultimately show ?thesis by (simp add: heredado_def r heredadas_anadirNodo[OF f])
  next
    case False
    with e have c: "con_padre idp d" and uv: "u = the idp" "v = ?i"
      by (auto simp: aristas_anadirNodo[OF assms(1)] split: if_splits)
    from c f have "the idp \<noteq> ?i" by (auto simp: con_padre_def split: option.splits)
    with c uv show ?thesis by (simp add: heredado_def r heredadas_anadirNodo[OF f])
  qed
  then show ?thesis by (simp add: capas_heredadas_def)
qed

lemma invariante_anadirNodo:
  "invariante d \<Longrightarrow> invariante (snd (anadirNodo nom idp k d))"
  by (simp add: invariante_def bien_formado_anadirNodo capas_heredadas_anadirNodo)

section \<open>Linking keeps the invariant\<close>

lemma bien_formado_menor:
  "bien_formado d \<Longrightarrow> k \<in> set (nodos d) \<Longrightarrow> k < siguiente_id d"
  unfolding bien_formado_def by blast

lemma bien_formado_enlace:
  assumes b: "bien_formado d" and p: "p \<in> set (nodos d)" and c: "c \<in> set (nodos d)"
    and nh: "c \<notin> set (hijos (nodo d p))" and nc: "(c, p) \<notin> (aristas d)\<^sup>*"
  shows "bien_formado (enlace p c d)"
proof -
  let ?d' = "enlace p c d"
  from nh bien_formado_padre[OF b c] have np: "p \<notin> set (padres (nodo d c))" by blast
  have c1: "\<forall>j \<in> set (nodos ?d'). j < siguiente_id ?d'"
    using bien_formado_menor[OF b] by simp
  have c2: "\<forall>j \<in> set (nodos ?d'). distinct (hijos (nodo ?d' j)) \<and> distinct (padres (nodo ?d' j))"
  proof
    fix j assume "j \<in> set (nodos ?d')"
    then have "j \<in> set (nodos d)" by simp
    from bien_formado_distinct[OF b this] nh np
    show "distinct (hijos (nodo ?d' j)) \<and> distinct (padres (nodo ?d' j))"
      by (auto simp: hijos_enlace padres_enlace)
  qed
  have c3: "\<forall>j \<in> set (nodos ?d'). \<forall>h \<in> set (hijos (nodo ?d' j)).
        h \<in> set (nodos ?d') \<and> j \<in> set (padres (nodo ?d' h))"
  proof (intro ballI)
    fix j h assume j: "j \<in> set (nodos ?d')" and h: "h \<in> set (hijos (nodo ?d' j))"
    from j have jn: "j \<in> set (nodos d)" by simp
    show "h \<in> set (nodos ?d') \<and> j \<in> set (padres (nodo ?d' h))"
    proof (cases "j = p \<and> h = c")
      case True
      with c show ?thesis by (simp add: padres_enlace)
    next
      case False
      with h have "h \<in> set (hijos (nodo d j))" by (auto simp: hijos_enlace split: if_splits)
      from bien_formado_hijo[OF b jn this] show ?thesis by (auto simp: padres_enlace)
    qed
  qed
  have c4: "\<forall>j \<in> set (nodos ?d'). \<forall>q \<in> set (padres (nodo ?d' j)).
        q \<in> set (nodos ?d') \<and> j \<in> set (hijos (nodo ?d' q))"
  proof (intro ballI)
    fix j q assume j: "j \<in> set (nodos ?d')" and q: "q \<in> set (padres (nodo ?d' j))"
    from j have jn: "j \<in> set (nodos d)" by simp
    show "q \<in> set (nodos ?d') \<and> j \<in> set (hijos (nodo ?d' q))"
    proof (cases "j = c \<and> q = p")
      case True
      with p show ?thesis by (simp add: hijos_enlace)
    next
      case False
      with q have "q \<in> set (padres (nodo d j))" by (auto simp: padres_enlace split: if_splits)
      from bien_formado_padre[OF b jn this] show ?thesis by (auto simp: hijos_enlace)
    qed
  qed
  have c5: "acyclic (aristas ?d')"
    using bien_formado_aciclico[OF b] nc by (simp add: aristas_enlace[OF p])
  from c1 c2 c3 c4 c5 show ?thesis unfolding bien_formado_def by blast
qed

lemma invariante_enlazarNodos:
  assumes inv: "invariante d" and e: "enlazarNodos fuel p c d = Some (b, d')"
  shows "invariante d'"
proof (cases b)
  case False
  with e have "enlazarNodos fuel p c d = Some (False, d')" by simp
  then have "d' = d" by (rule enlazarNodos_fallo)
  with inv show ?thesis by simp
next
  case True
  from inv have bf: "bien_formado d" and ch: "capas_heredadas d" by (simp_all add: invariante_def)
  from e True have e': "enlazarNodos fuel p c d = Some (True, d')" by simp
  note x = enlazarNodos_exito[OF e']
  from x(4) have pc: "p \<noteq> c" by (rule creaCiclo_distintos)
  from creaCiclo_correcto[OF x(4)] have nc: "(c, p) \<notin> (aristas d)\<^sup>*" by simp
  let ?d3 = "enlace p c d"
  have b3: "bien_formado ?d3" by (rule bien_formado_enlace[OF bf x(1) x(2) x(3) nc])
  from propagar_crecen[OF x(5)] have m: "misma_estructura ?d3 d'" by simp
  then have b': "bien_formado d'" using b3 by (simp add: bien_formado_misma)
  have "heredado d' u v" if uv: "(u, v) \<in> aristas d'" for u v
  proof -
    from uv m have e3: "(u, v) \<in> aristas ?d3" by (simp add: aristas_misma)
    have "heredado ?d3 u v \<or> u = c"
    proof (cases "u = c")
      case False
      show ?thesis
      proof (cases "(u, v) \<in> aristas d")
        case True
        with ch have "heredado d u v" by (simp add: capas_heredadas_def)
        from heredado_crecen[OF this enlace_crecen[OF pc]] False pc show ?thesis
          by (simp add: heredadas_enlace)
      next
        case nd: False
        with e3 have "u = p" "v = c" by (simp_all add: aristas_enlace[OF x(1)])
        with pc show ?thesis
          by (simp add: heredado_def heredadas_enlace restricciones_def capas_le_combinar1)
      qed
    qed simp
    from propagar_heredado[OF x(5) bien_formado_aciclico[OF b3] e3 this] show ?thesis .
  qed
  then have "capas_heredadas d'" by (simp add: capas_heredadas_def)
  with b' show ?thesis by (simp add: invariante_def)
qed

section \<open>Unlinking and renaming keep the invariant\<close>

lemma eliminar_enlace_campos:
  assumes "eliminar_enlace p c d = Inr d'"
  shows "nodos d' = nodos d" and "siguiente_id d' = siguiente_id d"
    and "hijos (nodo d' k) = (if k = p then remove1 c (hijos (nodo d p)) else hijos (nodo d k))"
    and "padres (nodo d' k) = (if k = c then remove1 p (padres (nodo d c)) else padres (nodo d k))"
    and "mismas_capas d d'"
  using assms
  by (auto simp: eliminar_enlace_def Let_def mismas_capas_def remove1_idem split: if_splits)

lemma eliminar_enlace_nodos:
  "eliminar_enlace p c d = Inr d' \<Longrightarrow> p \<in> set (nodos d) \<and> c \<in> set (nodos d)"
  by (auto simp: eliminar_enlace_def Let_def split: if_splits)

lemma invariante_eliminar_enlace:
  assumes inv: "invariante d" and e: "eliminar_enlace p c d = Inr d'"
  shows "invariante d'"
proof -
  from inv have b: "bien_formado d" and ch: "capas_heredadas d" by (simp_all add: invariante_def)
  note f = eliminar_enlace_campos[OF e]
  from eliminar_enlace_nodos[OF e] have p: "p \<in> set (nodos d)" and c: "c \<in> set (nodos d)"
    by simp_all
  have sh: "\<And>k. set (hijos (nodo d' k)) =
      (if k = p then set (hijos (nodo d p)) - {c} else set (hijos (nodo d k)))"
    using bien_formado_distinct[OF b p] by (simp add: f(3))
  have sp: "\<And>k. set (padres (nodo d' k)) =
      (if k = c then set (padres (nodo d c)) - {p} else set (padres (nodo d k)))"
    using bien_formado_distinct[OF b c] by (simp add: f(4))
  have ar: "aristas d' \<subseteq> aristas d" by (auto simp: aristas_def f(1) sh split: if_splits)
  have c1: "\<forall>j \<in> set (nodos d'). j < siguiente_id d'"
    using bien_formado_menor[OF b] by (simp add: f(1,2))
  have c2: "\<forall>j \<in> set (nodos d'). distinct (hijos (nodo d' j)) \<and> distinct (padres (nodo d' j))"
  proof
    fix j assume "j \<in> set (nodos d')"
    then have "j \<in> set (nodos d)" by (simp add: f(1))
    from bien_formado_distinct[OF b this] bien_formado_distinct[OF b p] bien_formado_distinct[OF b c]
    show "distinct (hijos (nodo d' j)) \<and> distinct (padres (nodo d' j))"
      by (simp add: f(3,4))
  qed
  have c3: "\<forall>j \<in> set (nodos d'). \<forall>h \<in> set (hijos (nodo d' j)).
        h \<in> set (nodos d') \<and> j \<in> set (padres (nodo d' h))"
  proof (intro ballI)
    fix j h assume j: "j \<in> set (nodos d')" and h: "h \<in> set (hijos (nodo d' j))"
    from j have jn: "j \<in> set (nodos d)" by (simp add: f(1))
    from h have h0: "h \<in> set (hijos (nodo d j))" and ne: "\<not> (j = p \<and> h = c)"
      by (auto simp: sh split: if_splits)
    from bien_formado_hijo[OF b jn h0] ne
    show "h \<in> set (nodos d') \<and> j \<in> set (padres (nodo d' h))"
      by (auto simp: f(1) sp)
  qed
  have c4: "\<forall>j \<in> set (nodos d'). \<forall>q \<in> set (padres (nodo d' j)).
        q \<in> set (nodos d') \<and> j \<in> set (hijos (nodo d' q))"
  proof (intro ballI)
    fix j q assume j: "j \<in> set (nodos d')" and q: "q \<in> set (padres (nodo d' j))"
    from j have jn: "j \<in> set (nodos d)" by (simp add: f(1))
    from q have q0: "q \<in> set (padres (nodo d j))" and ne: "\<not> (j = c \<and> q = p)"
      by (auto simp: sp split: if_splits)
    from bien_formado_padre[OF b jn q0] ne
    show "q \<in> set (nodos d') \<and> j \<in> set (hijos (nodo d' q))"
      by (auto simp: f(1) sh)
  qed
  have c5: "acyclic (aristas d')"
    using bien_formado_aciclico[OF b] ar by (rule acyclic_subset)
  from c1 c2 c3 c4 c5 have b': "bien_formado d'" unfolding bien_formado_def by blast
  have "heredado d' u v" if "(u, v) \<in> aristas d'" for u v
  proof -
    from that ar ch have "heredado d u v" by (auto simp: capas_heredadas_def)
    with f(5) show ?thesis by (simp add: heredado_def restricciones_def mismas_capas_def)
  qed
  then have "capas_heredadas d'" by (simp add: capas_heredadas_def)
  with b' show ?thesis by (simp add: invariante_def)
qed

lemma modificar_misma:
  assumes "\<And>m. hijos (f m) = hijos m" and "\<And>m. padres (f m) = padres m"
  shows "misma_estructura d (modificar k f d)"
  using assms by (simp add: misma_estructura_def)

lemma modificar_mismas_capas:
  assumes "\<And>m. restricciones_heredadas (f m) = restricciones_heredadas m"
    and "\<And>m. restricciones_propias (f m) = restricciones_propias m"
  shows "mismas_capas d (modificar k f d)"
  using assms by (simp add: mismas_capas_def)

lemma actualizar_nodo_estructura:
  assumes "actualizar_nodo i nom cont url d = Inr d'"
  shows "misma_estructura d d' \<and> mismas_capas d d'"
proof -
  let ?d1 = "case nom of None \<Rightarrow> d
     | Some s \<Rightarrow> actualizarHomologos i s (modificar i (\<lambda>m. m\<lparr>nombre := s\<rparr>) d)"
  let ?d2 = "case cont of None \<Rightarrow> ?d1 | Some s \<Rightarrow> modificar i (\<lambda>m. m\<lparr>contenido := s\<rparr>) ?d1"
  let ?d3 = "case url of None \<Rightarrow> ?d2 | Some s \<Rightarrow> modificar i (\<lambda>m. m\<lparr>gitURL := s\<rparr>) ?d2"
  from assms have d': "d' = ?d3"
    by (simp add: actualizar_nodo_def Let_def split: if_splits)
  have 1: "misma_estructura d ?d1 \<and> mismas_capas d ?d1"
  proof (cases nom)
    case None
    then show ?thesis by simp
  next
    case (Some s)
    have "misma_estructura d (modificar i (\<lambda>m. m\<lparr>nombre := s\<rparr>) d)"
      "mismas_capas d (modificar i (\<lambda>m. m\<lparr>nombre := s\<rparr>) d)"
      by (simp_all add: modificar_misma modificar_mismas_capas)
    with actualizarHomologos_estructura[of "modificar i (\<lambda>m. m\<lparr>nombre := s\<rparr>) d" i s] Some
    show ?thesis by (auto intro: misma_estructura_trans mismas_capas_trans)
  qed
  have 2: "misma_estructura ?d1 ?d2 \<and> mismas_capas ?d1 ?d2"
    by (cases cont) (simp_all add: modificar_misma modificar_mismas_capas)
  have 3: "misma_estructura ?d2 ?d3 \<and> mismas_capas ?d2 ?d3"
    by (cases url) (simp_all add: modificar_misma modificar_mismas_capas)
  from 1 2 3 show ?thesis unfolding d'
    by (blast intro: misma_estructura_trans mismas_capas_trans)
qed

lemma invariante_misma:
  "misma_estructura d d' \<Longrightarrow> mismas_capas d d' \<Longrightarrow> invariante d \<Longrightarrow> invariante d'"
  by (simp add: invariante_def bien_formado_misma capas_heredadas_misma)

lemma invariante_actualizar_nodo:
  "invariante d \<Longrightarrow> actualizar_nodo i nom cont url d = Inr d' \<Longrightarrow> invariante d'"
  using actualizar_nodo_estructura invariante_misma by blast

section \<open>Diagrams without a closed set of nodes\<close>

lemma restringido_refl [simp]: "restringido d {} d"
  by (simp add: restringido_def)

lemma restringido_trans:
  assumes "restringido a D1 b" and "restringido b D2 c"
  shows "restringido a (D1 \<union> D2) c"
proof -
  from assms(1) have nb: "nodos b = filter (\<lambda>k. k \<notin> D1) (nodos a)"
    and sb: "siguiente_id b = siguiente_id a"
    and fb: "\<And>k. k \<in> set (nodos a) \<Longrightarrow> k \<notin> D1 \<Longrightarrow>
        hijos (nodo b k) = filter (\<lambda>h. h \<notin> D1) (hijos (nodo a k)) \<and>
        padres (nodo b k) = padres (nodo a k) \<and>
        restricciones_heredadas (nodo b k) = restricciones_heredadas (nodo a k) \<and>
        restricciones_propias (nodo b k) = restricciones_propias (nodo a k)"
    unfolding restringido_def by blast+
  from assms(2) have nc: "nodos c = filter (\<lambda>k. k \<notin> D2) (nodos b)"
    and sc: "siguiente_id c = siguiente_id b"
    and fc: "\<And>k. k \<in> set (nodos b) \<Longrightarrow> k \<notin> D2 \<Longrightarrow>
        hijos (nodo c k) = filter (\<lambda>h. h \<notin> D2) (hijos (nodo b k)) \<and>
        padres (nodo c k) = padres (nodo b k) \<and>
        restricciones_heredadas (nodo c k) = restricciones_heredadas (nodo b k) \<and>
        restricciones_propias (nodo c k) = restricciones_propias (nodo b k)"
    unfolding restringido_def by blast+
  have n: "nodos c = filter (\<lambda>k. k \<notin> D1 \<union> D2) (nodos a)"
    by (simp add: nc nb conj_commute)
  have f: "hijos (nodo c k) = filter (\<lambda>h. h \<notin> D1 \<union> D2) (hijos (nodo a k)) \<and>
        padres (nodo c k) = padres (nodo a k) \<and>
        restricciones_heredadas (nodo c k) = restricciones_heredadas (nodo a k) \<and>
        restricciones_propias (nodo c k) = restricciones_propias (nodo a k)"
    if k: "k \<in> set (nodos a) - (D1 \<union> D2)" for k
  proof -
    from k have ka: "k \<in> set (nodos a)" "k \<notin> D1" "k \<notin> D2" by auto
    then have kb: "k \<in> set (nodos b)" by (simp add: nb)
    from fb[OF ka(1,2)] fc[OF kb ka(3)] show ?thesis by (simp add: conj_commute)
  qed
  from n sb sc f show ?thesis unfolding restringido_def by simp
qed

lemma restringido_nodos:
  "restringido d D d' \<Longrightarrow> set (nodos d') = set (nodos d) - D"
  by (auto simp: restringido_def)

lemma restringido_campos:
  assumes "restringido d D d'" and "k \<in> set (nodos d)" and "k \<notin> D"
  shows "hijos (nodo d' k) = filter (\<lambda>h. h \<notin> D) (hijos (nodo d k))"
    and "padres (nodo d' k) = padres (nodo d k)"
    and "restricciones_heredadas (nodo d' k) = restricciones_heredadas (nodo d k)"
    and "restricciones_propias (nodo d' k) = restricciones_propias (nodo d k)"
  using assms unfolding restringido_def by blast+

lemma aristas_restringido:
  assumes "restringido d D d'"
  shows "aristas d' = {(a, b). (a, b) \<in> aristas d \<and> a \<notin> D \<and> b \<notin> D}"
proof -
  have "(a, b) \<in> aristas d' \<longleftrightarrow> (a, b) \<in> aristas d \<and> a \<notin> D \<and> b \<notin> D" for a b
  proof (cases "a \<in> set (nodos d) \<and> a \<notin> D")
    case True
    with restringido_campos(1)[OF assms, of a] restringido_nodos[OF assms]
    show ?thesis by (auto simp: aristas_def)
  next
    case False
    with restringido_nodos[OF assms] show ?thesis by (auto simp: aristas_def)
  qed
  then show ?thesis by auto
qed

lemma cerrado_descendientes: "cerrado d (descendientes d x)"
  unfolding cerrado_def descendientes_def by (auto intro: rtrancl_into_rtrancl)

lemma restringido_invariante:
  assumes inv: "invariante d" and ce: "cerrado d D" and r: "restringido d D d'"
  shows "invariante d'"
proof -
  from inv have b: "bien_formado d" and ch: "capas_heredadas d" by (simp_all add: invariante_def)
  note n = restringido_nodos[OF r]
  note ar = aristas_restringido[OF r]
  have s: "siguiente_id d' = siguiente_id d" using r by (simp add: restringido_def)
  have c1: "\<forall>j \<in> set (nodos d'). j < siguiente_id d'"
    using bien_formado_menor[OF b] by (simp add: n s)
  have c2: "\<forall>j \<in> set (nodos d'). distinct (hijos (nodo d' j)) \<and> distinct (padres (nodo d' j))"
  proof
    fix j assume "j \<in> set (nodos d')"
    then have j: "j \<in> set (nodos d)" "j \<notin> D" by (simp_all add: n)
    from bien_formado_distinct[OF b j(1)] restringido_campos(1,2)[OF r j]
    show "distinct (hijos (nodo d' j)) \<and> distinct (padres (nodo d' j))" by simp
  qed
  have c3: "\<forall>j \<in> set (nodos d'). \<forall>h \<in> set (hijos (nodo d' j)).
        h \<in> set (nodos d') \<and> j \<in> set (padres (nodo d' h))"
  proof (intro ballI)
    fix j h assume "j \<in> set (nodos d')" and h: "h \<in> set (hijos (nodo d' j))"
    then have j: "j \<in> set (nodos d)" "j \<notin> D" by (simp_all add: n)
    from h restringido_campos(1)[OF r j] have h0: "h \<in> set (hijos (nodo d j))" "h \<notin> D"
      by simp_all
    from bien_formado_hijo[OF b j(1) h0(1)] have hn: "h \<in> set (nodos d)"
      and jp: "j \<in> set (padres (nodo d h))" by simp_all
    from restringido_campos(2)[OF r hn h0(2)] jp hn h0(2)
    show "h \<in> set (nodos d') \<and> j \<in> set (padres (nodo d' h))" by (simp add: n)
  qed
  have c4: "\<forall>j \<in> set (nodos d'). \<forall>q \<in> set (padres (nodo d' j)).
        q \<in> set (nodos d') \<and> j \<in> set (hijos (nodo d' q))"
  proof (intro ballI)
    fix j q assume "j \<in> set (nodos d')" and q: "q \<in> set (padres (nodo d' j))"
    then have j: "j \<in> set (nodos d)" "j \<notin> D" by (simp_all add: n)
    from q restringido_campos(2)[OF r j] have q0: "q \<in> set (padres (nodo d j))" by simp
    from bien_formado_padre[OF b j(1) q0] have qn: "q \<in> set (nodos d)"
      and jh: "j \<in> set (hijos (nodo d q))" by simp_all
    then have "(q, j) \<in> aristas d" by (simp add: aristas_def)
    with ce j(2) have qD: "q \<notin> D" unfolding cerrado_def by blast
    from restringido_campos(1)[OF r qn qD] jh j(2) qn qD
    show "q \<in> set (nodos d') \<and> j \<in> set (hijos (nodo d' q))" by (simp add: n)
  qed
  have sub: "aristas d' \<subseteq> aristas d" by (auto simp: ar)
  have c5: "acyclic (aristas d')"
    using bien_formado_aciclico[OF b] sub by (rule acyclic_subset)
  from c1 c2 c3 c4 c5 have b': "bien_formado d'" unfolding bien_formado_def by blast
  have "heredado d' u v" if "(u, v) \<in> aristas d'" for u v
  proof -
    from that have e: "(u, v) \<in> aristas d" "u \<notin> D" "v \<notin> D" by (simp_all add: ar)
    from aristas_nodos[OF b e(1)] have uv: "u \<in> set (nodos d)" "v \<in> set (nodos d)" by simp_all
    from ch e(1) have "heredado d u v" by (simp add: capas_heredadas_def)
    with restringido_campos(3,4)[OF r uv(1) e(2)] restringido_campos(3)[OF r uv(2) e(3)]
    show ?thesis by (simp add: heredado_def restricciones_def)
  qed
  then have "capas_heredadas d'" by (simp add: capas_heredadas_def)
  with b' show ?thesis by (simp add: invariante_def)
qed

section \<open>The two cleaning loops of the deletion\<close>

lemma quitar_de_padres_campos:
  "nodos (quitar_de_padres i ps d) = nodos d \<and>
   siguiente_id (quitar_de_padres i ps d) = siguiente_id d \<and>
   hijos (nodo (quitar_de_padres i ps d) k) =
     (if k \<in> set ps \<and> k \<in> set (nodos d) then filter (\<lambda>h. h \<noteq> i) (hijos (nodo d k))
      else hijos (nodo d k)) \<and>
   padres (nodo (quitar_de_padres i ps d) k) = padres (nodo d k) \<and>
   restricciones_heredadas (nodo (quitar_de_padres i ps d) k) = restricciones_heredadas (nodo d k) \<and>
   restricciones_propias (nodo (quitar_de_padres i ps d) k) = restricciones_propias (nodo d k)"
proof (induction ps arbitrary: d)
  case Nil
  then show ?case by (simp add: quitar_de_padres_def)
next
  case (Cons p ps)
  let ?d1 = "if p \<in> set (nodos d)
      then modificar p (\<lambda>m. m\<lparr>hijos := filter (\<lambda>h. h \<noteq> i) (hijos m)\<rparr>) d else d"
  have e: "quitar_de_padres i (p # ps) d = quitar_de_padres i ps ?d1"
    by (simp add: quitar_de_padres_def)
  have n1: "nodos ?d1 = nodos d" by simp
  show ?case unfolding e using Cons.IH[of ?d1] by (auto simp: n1)
qed

lemma fold_homologos_estructura:
  "misma_estructura d (fold (\<lambda>k s. if k \<in> homs
       then modificar k (\<lambda>m. m\<lparr>homologos := homologos m - {i}\<rparr>) s else s) ks d) \<and>
   mismas_capas d (fold (\<lambda>k s. if k \<in> homs
       then modificar k (\<lambda>m. m\<lparr>homologos := homologos m - {i}\<rparr>) s else s) ks d)"
proof (induction ks arbitrary: d)
  case Nil
  then show ?case by simp
next
  case (Cons k ks)
  let ?d1 = "if k \<in> homs then modificar k (\<lambda>m. m\<lparr>homologos := homologos m - {i}\<rparr>) d else d"
  have "misma_estructura d ?d1" "mismas_capas d ?d1"
    by (simp_all add: modificar_misma modificar_mismas_capas)
  with Cons.IH[of ?d1] show ?case
    by (auto intro: misma_estructura_trans mismas_capas_trans)
qed

lemma quitar_de_homologos_estructura:
  "misma_estructura d (quitar_de_homologos i homs d) \<and>
   mismas_capas d (quitar_de_homologos i homs d)"
  unfolding quitar_de_homologos_def by (rule fold_homologos_estructura)

section \<open>Deleting a node removes exactly its descendants\<close>

lemma descendientes_sub:
  assumes "aristas d' \<subseteq> aristas d"
  shows "descendientes d' x \<subseteq> descendientes d x"
  unfolding descendientes_def using rtrancl_mono[OF assms] by blast

lemma eliminarNodo_ausente:
  "x \<notin> set (nodos d) \<Longrightarrow> eliminarNodo (Suc n) x d = Some (False, d)"
  by simp

text \<open>
  The loop over the children, given what a call with the fuel \<open>n\<close> does: the nodes that
  went are a set \<open>D\<close> closed under the edges, made of descendants of the children, with
  every child that was registered in it.
\<close>

lemma bucle_eliminar:
  assumes IH: "\<And>x d b d'. invariante d \<Longrightarrow> eliminarNodo n x d = Some (b, d') \<Longrightarrow>
      (x \<notin> set (nodos d) \<longrightarrow> \<not> b \<and> d' = d) \<and>
      (x \<in> set (nodos d) \<longrightarrow> b \<and> restringido d (descendientes d x) d')"
  shows "invariante s \<Longrightarrow>
      bucle (\<lambda>h s. map_option snd (eliminarNodo n h s)) cs s = Some s' \<Longrightarrow>
      \<exists>D. restringido s D s' \<and> cerrado s D \<and> D \<subseteq> set (nodos s) \<and>
          set cs \<inter> set (nodos s) \<subseteq> D \<and> D \<subseteq> (\<Union>c \<in> set cs. descendientes s c)"
proof (induction cs arbitrary: s)
  case Nil
  then show ?case by (auto simp: cerrado_def)
next
  case (Cons c cs)
  from Cons.prems(2) obtain b s1 where e: "eliminarNodo n c s = Some (b, s1)"
    and r: "bucle (\<lambda>h s. map_option snd (eliminarNodo n h s)) cs s1 = Some s'"
    by (cases "eliminarNodo n c s") auto
  note sp = IH[OF Cons.prems(1) e]
  from Cons.prems(1) have bs: "bien_formado s" by (simp add: invariante_def)
  define D1 where "D1 = (if c \<in> set (nodos s) then descendientes s c else {})"
  have r1: "restringido s D1 s1" using sp by (auto simp: D1_def)
  have ce1: "cerrado s D1" by (simp add: D1_def cerrado_descendientes) (simp add: cerrado_def)
  have sub1: "D1 \<subseteq> set (nodos s)" using descendientes_nodos[OF bs] by (auto simp: D1_def)
  have c1: "c \<in> set (nodos s) \<Longrightarrow> c \<in> D1" by (simp add: D1_def)
  have d1: "D1 \<subseteq> descendientes s c" by (simp add: D1_def)
  have inv1: "invariante s1" by (rule restringido_invariante[OF Cons.prems(1) ce1 r1])
  from Cons.IH[OF inv1 r] obtain D2 where r2: "restringido s1 D2 s'" and ce2: "cerrado s1 D2"
    and sub2: "D2 \<subseteq> set (nodos s1)" and c2: "set cs \<inter> set (nodos s1) \<subseteq> D2"
    and d2: "D2 \<subseteq> (\<Union>c \<in> set cs. descendientes s1 c)" by blast
  note n1 = restringido_nodos[OF r1]
  note a1 = aristas_restringido[OF r1]
  have g1: "restringido s (D1 \<union> D2) s'" by (rule restringido_trans[OF r1 r2])
  have g2: "cerrado s (D1 \<union> D2)"
    unfolding cerrado_def
  proof (intro allI impI)
    fix a b assume a: "a \<in> D1 \<union> D2" and ab: "(a, b) \<in> aristas s"
    show "b \<in> D1 \<union> D2"
    proof (cases "a \<in> D1 \<or> b \<in> D1")
      case True
      with ce1 ab show ?thesis unfolding cerrado_def by blast
    next
      case False
      with a have "a \<in> D2" by simp
      moreover from False ab have "(a, b) \<in> aristas s1" by (simp add: a1)
      ultimately show ?thesis using ce2 unfolding cerrado_def by blast
    qed
  qed
  have g3: "D1 \<union> D2 \<subseteq> set (nodos s)" using sub1 sub2 n1 by blast
  have g4: "set (c # cs) \<inter> set (nodos s) \<subseteq> D1 \<union> D2"
    using c1 c2 n1 by auto
  have "aristas s1 \<subseteq> aristas s" by (auto simp: a1)
  then have ds: "descendientes s1 y \<subseteq> descendientes s y" for y
    by (rule descendientes_sub)
  have "(\<Union>c \<in> set cs. descendientes s1 c) \<subseteq> (\<Union>c \<in> set cs. descendientes s c)"
    by (rule UN_mono) (simp_all add: ds)
  with d2 have "D2 \<subseteq> (\<Union>c \<in> set cs. descendientes s c)" by (rule subset_trans)
  with d1 have g5: "D1 \<union> D2 \<subseteq> (\<Union>c \<in> set (c # cs). descendientes s c)" by auto
  show ?case
    by (rule exI[of _ "D1 \<union> D2"]) (simp only: g1 g2 g3 g4 g5 simp_thms)
qed

lemma eliminarNodo_correcto:
  "invariante d \<Longrightarrow> eliminarNodo n x d = Some (b, d') \<Longrightarrow>
      (x \<notin> set (nodos d) \<longrightarrow> \<not> b \<and> d' = d) \<and>
      (x \<in> set (nodos d) \<longrightarrow> b \<and> restringido d (descendientes d x) d')"
proof (induction n arbitrary: x d b d')
  case 0
  then show ?case by simp
next
  case (Suc n)
  show ?case
  proof (cases "x \<in> set (nodos d)")
    case False
    with Suc.prems(2) show ?thesis by simp
  next
    case True
    from Suc.prems(1) have bd: "bien_formado d" by (simp add: invariante_def)
    from Suc.prems(2) True obtain s1 where
      l: "bucle (\<lambda>h s. map_option snd (eliminarNodo n h s)) (hijos (nodo d x)) d = Some s1"
      and res: "b = True" "d' = quitar_de_homologos x (homologos (nodo s1 x))
          ((quitar_de_padres x (padres (nodo s1 x)) s1)
             \<lparr>nodos := removeAll x (nodos (quitar_de_padres x (padres (nodo s1 x)) s1))\<rparr>)"
      by (auto simp: Let_def split: option.splits)
    from bucle_eliminar[of n, OF Suc.IH Suc.prems(1) l] obtain D where
      r: "restringido d D s1" and ce: "cerrado d D" and sub: "D \<subseteq> set (nodos d)"
      and ch: "set (hijos (nodo d x)) \<inter> set (nodos d) \<subseteq> D"
      and ds: "D \<subseteq> (\<Union>c \<in> set (hijos (nodo d x)). descendientes d c)" by blast
    have hD: "set (hijos (nodo d x)) \<subseteq> D"
      using ch bien_formado_hijo[OF bd True] by blast
    have xD: "x \<notin> D"
    proof
      assume "x \<in> D"
      with ds obtain c where c: "c \<in> set (hijos (nodo d x))" "x \<in> descendientes d c" by blast
      from c(1) True have "(x, c) \<in> aristas d" by (simp add: aristas_def)
      from descendientes_aciclico[OF bien_formado_aciclico[OF bd] this] c(2) show False by simp
    qed
    have eq: "descendientes d x = insert x D"
    proof
      show "insert x D \<subseteq> descendientes d x"
      proof -
        have "descendientes d c \<subseteq> descendientes d x" if "c \<in> set (hijos (nodo d x))" for c
          using that True by (intro descendientes_hijo) (simp add: aristas_def)
        with ds show ?thesis by auto
      qed
      show "descendientes d x \<subseteq> insert x D"
      proof
        fix y assume "y \<in> descendientes d x"
        then have "(x, y) \<in> (aristas d)\<^sup>*" by (simp add: descendientes_def)
        then show "y \<in> insert x D"
        proof (induction rule: rtrancl_induct)
          case base
          then show ?case by simp
        next
          case (step y z)
          show ?case
          proof (cases "y = x")
            case True
            with step(2) hD show ?thesis by (auto simp: aristas_def)
          next
            case False
            with step(3) have "y \<in> D" by simp
            with ce step(2) show ?thesis unfolding cerrado_def by blast
          qed
        qed
      qed
    qed
    let ?ps = "padres (nodo d x)"
    from restringido_campos(2)[OF r True xD] have px: "padres (nodo s1 x) = ?ps" .
    note n1 = restringido_nodos[OF r]
    let ?d2 = "quitar_de_padres x ?ps s1"
    let ?d3 = "?d2\<lparr>nodos := removeAll x (nodos ?d2)\<rparr>"
    note q = quitar_de_padres_campos[of x ?ps s1]
    from quitar_de_homologos_estructura[of ?d3 x "homologos (nodo s1 x)"] res(2) px
    have m: "misma_estructura ?d3 d'" and mc: "mismas_capas ?d3 d'" by simp_all
    have nod: "nodos d' = filter (\<lambda>k. k \<notin> insert x D) (nodos d)"
    proof -
      from m have "nodos d' = removeAll x (nodos s1)" using q by (simp add: misma_estructura_def)
      also have "\<dots> = filter (\<lambda>k. k \<noteq> x) (filter (\<lambda>k. k \<notin> D) (nodos d))"
        using r by (simp add: restringido_def removeAll_filter_not_eq) metis
      also have "\<dots> = filter (\<lambda>k. k \<notin> insert x D) (nodos d)"
        by (simp add: conj_commute)
      finally show ?thesis .
    qed
    have sig: "siguiente_id d' = siguiente_id d"
      using m q r by (simp add: misma_estructura_def restringido_def)
    have campos: "hijos (nodo d' k) = filter (\<lambda>h. h \<notin> insert x D) (hijos (nodo d k)) \<and>
        padres (nodo d' k) = padres (nodo d k) \<and>
        restricciones_heredadas (nodo d' k) = restricciones_heredadas (nodo d k) \<and>
        restricciones_propias (nodo d' k) = restricciones_propias (nodo d k)"
      if k: "k \<in> set (nodos d) - insert x D" for k
    proof -
      from k have kn: "k \<in> set (nodos d)" and kD: "k \<notin> D" and kx: "k \<noteq> x" by auto
      note rc = restringido_campos[OF r kn kD]
      from kn kD have k1: "k \<in> set (nodos s1)" by (simp add: n1)
      have "hijos (nodo ?d2 k) = filter (\<lambda>h. h \<noteq> x) (hijos (nodo s1 k))"
      proof (cases "k \<in> set ?ps")
        case True
        with k1 q show ?thesis by simp
      next
        case False
        with bien_formado_hijo[OF bd kn, of x] have "x \<notin> set (hijos (nodo d k))" by blast
        then have "x \<notin> set (hijos (nodo s1 k))" by (simp add: rc(1))
        then have "filter (\<lambda>h. h \<noteq> x) (hijos (nodo s1 k)) = hijos (nodo s1 k)"
          by (auto intro: filter_True)
        with False q show ?thesis by simp
      qed
      then have "hijos (nodo ?d3 k) = filter (\<lambda>h. h \<notin> insert x D) (hijos (nodo d k))"
        by (simp add: rc(1) conj_commute)
      moreover have "padres (nodo ?d3 k) = padres (nodo d k)"
        "restricciones_heredadas (nodo ?d3 k) = restricciones_heredadas (nodo d k)"
        "restricciones_propias (nodo ?d3 k) = restricciones_propias (nodo d k)"
        using q rc by simp_all
      ultimately show ?thesis using m mc
        by (simp add: misma_estructura_def mismas_capas_def)
    qed
    from nod sig campos have "restringido d (insert x D) d'"
      unfolding restringido_def by blast
    with eq res(1) True show ?thesis by simp
  qed
qed

lemma invariante_eliminarNodo:
  assumes "invariante d" and "eliminarNodo n x d = Some (b, d')"
  shows "invariante d'"
proof (cases "x \<in> set (nodos d)")
  case True
  with eliminarNodo_correcto[OF assms] have "restringido d (descendientes d x) d'" by simp
  from restringido_invariante[OF assms(1) cerrado_descendientes this] show ?thesis .
next
  case False
  with eliminarNodo_correcto[OF assms] assms(1) show ?thesis by simp
qed

section \<open>Deletion returns on every acyclic diagram\<close>

lemma aristas_quitar_de_padres: "aristas (quitar_de_padres i ps d) \<subseteq> aristas d"
proof
  fix e assume e: "e \<in> aristas (quitar_de_padres i ps d)"
  obtain a b where ab: "e = (a, b)" by (cases e)
  note q = quitar_de_padres_campos[of i ps d a]
  from e ab q have "a \<in> set (nodos d)" by (simp add: aristas_def)
  moreover from e ab q have "b \<in> set (hijos (nodo d a))"
    by (auto simp: aristas_def split: if_splits)
  ultimately show "e \<in> aristas d" using ab by (simp add: aristas_def)
qed

lemma aristas_menos_nodos: "set ks \<subseteq> set (nodos d) \<Longrightarrow> aristas (d\<lparr>nodos := ks\<rparr>) \<subseteq> aristas d"
  by (auto simp: aristas_def)

text \<open>Whatever the diagram, a deletion that returns has added no edge.\<close>

lemma eliminarNodo_aristas:
  "eliminarNodo n x d = Some (b, d') \<Longrightarrow> aristas d' \<subseteq> aristas d"
proof (induction n arbitrary: x d b d')
  case 0
  then show ?case by simp
next
  case (Suc n)
  show ?case
  proof (cases "x \<in> set (nodos d)")
    case False
    with Suc.prems show ?thesis by simp
  next
    case True
    with Suc.prems obtain s1 where
      l: "bucle (\<lambda>h s. map_option snd (eliminarNodo n h s)) (hijos (nodo d x)) d = Some s1"
      and res: "d' = quitar_de_homologos x (homologos (nodo s1 x))
          ((quitar_de_padres x (padres (nodo s1 x)) s1)
             \<lparr>nodos := removeAll x (nodos (quitar_de_padres x (padres (nodo s1 x)) s1))\<rparr>)"
      by (auto simp: Let_def split: option.splits)
    have a1: "aristas s1 \<subseteq> aristas d"
    proof (rule bucle_invariante[OF l, where P = "\<lambda>s. aristas s \<subseteq> aristas d"])
      show "aristas d \<subseteq> aristas d" by simp
    next
      fix h a c
      assume a: "aristas a \<subseteq> aristas d" and s: "map_option snd (eliminarNodo n h a) = Some c"
      from s obtain bb where "eliminarNodo n h a = Some (bb, c)" by auto
      from Suc.IH[OF this] a show "aristas c \<subseteq> aristas d" by blast
    qed
    let ?d2 = "quitar_de_padres x (padres (nodo s1 x)) s1"
    let ?d3 = "?d2\<lparr>nodos := removeAll x (nodos ?d2)\<rparr>"
    from quitar_de_homologos_estructura[of ?d3 x "homologos (nodo s1 x)"] res
    have "aristas d' = aristas ?d3" by (simp add: aristas_misma)
    also have "\<dots> \<subseteq> aristas ?d2" by (rule aristas_menos_nodos) auto
    also have "\<dots> \<subseteq> aristas s1" by (rule aristas_quitar_de_padres)
    finally show ?thesis using a1 by blast
  qed
qed

lemma card_descendientes_sub:
  assumes "aristas d' \<subseteq> aristas d"
  shows "card (descendientes d' x) \<le> card (descendientes d x)"
  using descendientes_sub[OF assms] finite_descendientes by (rule card_mono[rotated])

lemma eliminarNodo_termina:
  "acyclic (aristas d) \<Longrightarrow> card (descendientes d x) \<le> n \<Longrightarrow>
     \<exists>b d'. eliminarNodo n x d = Some (b, d')"
proof (induction n arbitrary: x d)
  case 0
  with card_descendientes_pos[of d x] show ?case by simp
next
  case (Suc n)
  show ?case
  proof (cases "x \<in> set (nodos d)")
    case False
    then have "eliminarNodo (Suc n) x d = Some (False, d)" by simp
    then show ?thesis by blast
  next
    case True
    have "\<exists>s1. bucle (\<lambda>h s. map_option snd (eliminarNodo n h s)) (hijos (nodo d x)) d = Some s1"
    proof (rule bucle_termina[where P = "\<lambda>s. aristas s \<subseteq> aristas d"])
      show "aristas d \<subseteq> aristas d" by simp
    next
      fix c a
      assume c: "c \<in> set (hijos (nodo d x))" and a: "aristas a \<subseteq> aristas d"
      from c True have "(x, c) \<in> aristas d" by (simp add: aristas_def)
      from card_descendientes_hijo[OF Suc.prems(1) this] Suc.prems(2)
      have "card (descendientes d c) \<le> n" by simp
      with card_descendientes_sub[OF a, of c] have k: "card (descendientes a c) \<le> n" by simp
      have "acyclic (aristas a)" using Suc.prems(1) a by (rule acyclic_subset)
      from Suc.IH[OF this k] obtain bb a' where e: "eliminarNodo n c a = Some (bb, a')" by blast
      from eliminarNodo_aristas[OF e] a have "aristas a' \<subseteq> aristas d" by blast
      with e show "\<exists>b. map_option snd (eliminarNodo n c a) = Some b \<and> aristas b \<subseteq> aristas d"
        by simp
    qed
    then obtain s1 where
      "bucle (\<lambda>h s. map_option snd (eliminarNodo n h s)) (hijos (nodo d x)) d = Some s1" by blast
    with True have "\<exists>d'. eliminarNodo (Suc n) x d = Some (True, d')" by (simp add: Let_def)
    then show ?thesis by blast
  qed
qed

text \<open>
  C10. On a diagram whose children edges form no cycle, \<^verbatim>\<open>eliminarNodo\<close> and
  \<^verbatim>\<open>_propagarRestricciones\<close> return from every node, with a recursion no deeper than
  the number of descendants of the node (itself included).
\<close>

theorem C10_recursiones_terminan:
  assumes "acyclic (aristas d)" and "card (descendientes d i) \<le> fuel"
  shows "(\<exists>b d'. eliminarNodo fuel i d = Some (b, d'))
       \<and> (\<exists>d'. propagarRestricciones fuel i d = Some d')"
  using eliminarNodo_termina[OF assms] propagar_termina[OF assms] by simp

section \<open>Every sequence of operations keeps the invariant\<close>

lemma aplicar_invariante:
  assumes "invariante d" and "aplicar fuel op d = Some d'"
  shows "invariante d'"
proof (cases op)
  case (Anadir nom p k)
  with assms show ?thesis by (auto intro: invariante_anadirNodo)
next
  case (Eliminar i)
  with assms(2) obtain b where "eliminarNodo fuel i d = Some (b, d')" by auto
  from invariante_eliminarNodo[OF assms(1) this] show ?thesis .
next
  case (Enlazar p c)
  with assms(2) obtain b where "enlazarNodos fuel p c d = Some (b, d')" by auto
  from invariante_enlazarNodos[OF assms(1) this] show ?thesis .
next
  case (Desenlazar p c)
  show ?thesis
  proof (cases "eliminar_enlace p c d")
    case (Inl e)
    with Desenlazar assms show ?thesis by simp
  next
    case (Inr s)
    with Desenlazar assms(2) have "d' = s" by simp
    with invariante_eliminar_enlace[OF assms(1) Inr] show ?thesis by simp
  qed
next
  case (Actualizar i nom cont url)
  show ?thesis
  proof (cases "actualizar_nodo i nom cont url d")
    case (Inl e)
    with Actualizar assms show ?thesis by simp
  next
    case (Inr s)
    with Actualizar assms(2) have "d' = s" by simp
    with invariante_actualizar_nodo[OF assms(1) Inr] show ?thesis by simp
  qed
qed

lemma ejecutar_invariante:
  assumes "ejecutar fuel ops nom = Some d"
  shows "invariante d"
proof -
  from assms have b: "bucle (aplicar fuel) ops (Diagrama_nuevo nom) = Some d"
    by (simp add: ejecutar_def)
  show ?thesis
    by (rule bucle_invariante[OF b, where P = invariante])
       (simp_all add: invariante_Diagrama_nuevo aplicar_invariante)
qed

lemma ejecutar_bien_formado: "ejecutar fuel ops nom = Some d \<Longrightarrow> bien_formado d"
  using ejecutar_invariante by (simp add: invariante_def)

section \<open>The graph stays acyclic and its two directions agree\<close>

lemma hijo_de_aristas:
  assumes b: "bien_formado d" and t: "(k, y) \<in> (hijo_de d)\<^sup>+" and k: "k \<in> set (nodos d)"
  shows "(k, y) \<in> (aristas d)\<^sup>+ \<and> y \<in> set (nodos d)"
  using t
proof (induction rule: trancl_induct)
  case (base y)
  with k have e: "(k, y) \<in> aristas d" by (simp add: hijo_de_def aristas_def)
  with aristas_nodos[OF b e] show ?case by blast
next
  case (step y z)
  then have e: "(y, z) \<in> aristas d" by (simp add: hijo_de_def aristas_def)
  with aristas_nodos[OF b e] step.IH show ?case by (blast intro: trancl_into_trancl)
qed

text \<open>
  C3. After any sequence of operations on a new diagram (adding with or without a
  parent, deleting, linking, unlinking, renaming), no registered node reaches itself
  through one or more children edges.
\<close>

theorem C3_grafo_aciclico:
  assumes "ejecutar fuel ops nom = Some d" and "k \<in> set (nodos d)"
  shows "(k, k) \<notin> (hijo_de d)\<^sup>+"
proof
  assume "(k, k) \<in> (hijo_de d)\<^sup>+"
  note b = ejecutar_bien_formado[OF assms(1)]
  from hijo_de_aristas[OF b \<open>(k, k) \<in> (hijo_de d)\<^sup>+\<close> assms(2)]
  have "(k, k) \<in> (aristas d)\<^sup>+" by simp
  with bien_formado_aciclico[OF b] show False by (simp add: acyclic_def)
qed

theorem C3_witness:
  "ejecutar 5 ops_rombo ''P'' = Some (the (ejecutar 5 ops_rombo ''P''))
   \<and> nodos (the (ejecutar 5 ops_rombo ''P'')) = [1, 3]
   \<and> hijos (nodo (the (ejecutar 5 ops_rombo ''P'')) 1) = [3]
   \<and> (3, 3) \<notin> (hijo_de (the (ejecutar 5 ops_rombo ''P'')))\<^sup>+"
proof -
  have h: "ejecutar 5 ops_rombo ''P'' = Some (the (ejecutar 5 ops_rombo ''P''))"
    by (simp add: ops_rombo_def evaluar)
  have n: "nodos (the (ejecutar 5 ops_rombo ''P'')) = [1, 3]"
    by (simp add: ops_rombo_def evaluar)
  have c: "hijos (nodo (the (ejecutar 5 ops_rombo ''P'')) 1) = [3]"
    by (simp add: ops_rombo_def evaluar)
  from C3_grafo_aciclico[OF h, of 3] h n c show ?thesis by simp
qed

text \<open>
  C6. After any sequence of operations, for registered nodes P and C: P lists C among
  its children exactly when C lists P among its parents. Deletions are among the
  operations, whatever the shape of the graph.
\<close>

theorem C6_hijos_y_padres_coinciden:
  assumes "ejecutar fuel ops nom = Some d" and "p \<in> set (nodos d)" and "c \<in> set (nodos d)"
  shows "c \<in> set (hijos (nodo d p)) \<longleftrightarrow> p \<in> set (padres (nodo d c))"
  using bien_formado_hijo[OF ejecutar_bien_formado[OF assms(1)] assms(2), of c]
    bien_formado_padre[OF ejecutar_bien_formado[OF assms(1)] assms(3), of p]
  by blast

theorem C6_witness:
  "ejecutar 5 ops_rombo ''P'' = Some (the (ejecutar 5 ops_rombo ''P''))
   \<and> nodos (the (ejecutar 5 ops_rombo ''P'')) = [1, 3]
   \<and> hijos (nodo (the (ejecutar 5 ops_rombo ''P'')) 3) = []
   \<and> (3 \<in> set (hijos (nodo (the (ejecutar 5 ops_rombo ''P'')) 1))
        \<longleftrightarrow> 1 \<in> set (padres (nodo (the (ejecutar 5 ops_rombo ''P'')) 3)))"
proof -
  have h: "ejecutar 5 ops_rombo ''P'' = Some (the (ejecutar 5 ops_rombo ''P''))"
    by (simp add: ops_rombo_def evaluar)
  have n: "nodos (the (ejecutar 5 ops_rombo ''P'')) = [1, 3]"
    by (simp add: ops_rombo_def evaluar)
  have c: "hijos (nodo (the (ejecutar 5 ops_rombo ''P'')) 3) = []"
    by (simp add: ops_rombo_def evaluar)
  from C6_hijos_y_padres_coinciden[OF h, of 1 3] h n c show ?thesis by simp
qed

section \<open>Concrete inputs for linking and for the recursions\<close>

lemma ejemplo_hermanos_alcanzable:
  "ejecutar 0 [Anadir ''A'' (Some 1) None, Anadir ''B'' (Some 1) None] ''P''
     = Some ejemplo_hermanos"
  by (simp add: ejemplo_hermanos_def evaluar)

theorem C7_witness:
  "enlazarNodos 2 2 3 ejemplo_con_restriccion
     = Some (True, snd (the (enlazarNodos 2 2 3 ejemplo_con_restriccion)))
   \<and> restricciones (nodo ejemplo_con_restriccion 2) = [{}, {''r''}]
   \<and> restricciones_heredadas (nodo ejemplo_con_restriccion 3) = [{}]
   \<and> (1 < length (restricciones_heredadas
              (nodo (snd (the (enlazarNodos 2 2 3 ejemplo_con_restriccion))) 3))
        \<and> restricciones (nodo ejemplo_con_restriccion 2) ! 1
            \<subseteq> restricciones_heredadas
                (nodo (snd (the (enlazarNodos 2 2 3 ejemplo_con_restriccion))) 3) ! 1)"
proof -
  have h: "enlazarNodos 2 2 3 ejemplo_con_restriccion
     = Some (True, snd (the (enlazarNodos 2 2 3 ejemplo_con_restriccion)))"
    by (simp add: ejemplo_con_restriccion_def ejemplo_hermanos_def evaluar)
  have r: "restricciones (nodo ejemplo_con_restriccion 2) = [{}, {''r''}]"
    "restricciones_heredadas (nodo ejemplo_con_restriccion 3) = [{}]"
    by (simp_all add: ejemplo_con_restriccion_def ejemplo_hermanos_def evaluar)
  from C7_enlazar_capas_crecen[OF h]
  have "\<forall>i. i < length (restricciones (nodo ejemplo_con_restriccion 2)) \<longrightarrow>
      i < length (restricciones_heredadas
            (nodo (snd (the (enlazarNodos 2 2 3 ejemplo_con_restriccion))) 3)) \<and>
      restricciones (nodo ejemplo_con_restriccion 2) ! i
        \<subseteq> restricciones_heredadas
            (nodo (snd (the (enlazarNodos 2 2 3 ejemplo_con_restriccion))) 3) ! i"
    by blast
  then have "1 < length (restricciones (nodo ejemplo_con_restriccion 2)) \<longrightarrow>
      1 < length (restricciones_heredadas
            (nodo (snd (the (enlazarNodos 2 2 3 ejemplo_con_restriccion))) 3)) \<and>
      restricciones (nodo ejemplo_con_restriccion 2) ! 1
        \<subseteq> restricciones_heredadas
            (nodo (snd (the (enlazarNodos 2 2 3 ejemplo_con_restriccion))) 3) ! 1"
    by (rule spec)
  moreover have "1 < length (restricciones (nodo ejemplo_con_restriccion 2))"
    by (simp add: r)
  ultimately show ?thesis using h r by blast
qed

theorem C10_witness:
  "acyclic (aristas ejemplo_hermanos)
   \<and> card (descendientes ejemplo_hermanos 1) \<le> 3
   \<and> (\<exists>b d'. eliminarNodo 3 1 ejemplo_hermanos = Some (b, d'))
   \<and> (\<exists>d'. propagarRestricciones 3 1 ejemplo_hermanos = Some d')"
proof -
  note b = ejecutar_bien_formado[OF ejemplo_hermanos_alcanzable]
  have a: "acyclic (aristas ejemplo_hermanos)" by (rule bien_formado_aciclico[OF b])
  have n: "nodos ejemplo_hermanos = [1, 2, 3]" by (simp add: ejemplo_hermanos_def evaluar)
  have "descendientes ejemplo_hermanos 1 \<subseteq> set (nodos ejemplo_hermanos)"
    by (rule descendientes_nodos[OF b]) (simp add: n)
  then have "card (descendientes ejemplo_hermanos 1) \<le> card (set (nodos ejemplo_hermanos))"
    by (intro card_mono) simp_all
  then have c: "card (descendientes ejemplo_hermanos 1) \<le> 3" by (simp add: n)
  from C10_recursiones_terminan[OF a c] a c show ?thesis by simp
qed

section \<open>When a link is made\<close>

lemma enlazarNodos_pasa:
  assumes "p \<in> set (nodos d)" and "c \<in> set (nodos d)" and "c \<notin> set (hijos (nodo d p))"
    and "creaCiclo fuel p c d = Some False"
  shows "enlazarNodos fuel p c d = map_option (Pair True) (propagarRestricciones fuel c (enlace p c d))"
  using assms by (simp add: enlazarNodos_def enlace_def Let_def)

lemma card_descendientes_nodos:
  assumes "bien_formado d" and "x \<in> set (nodos d)"
  shows "card (descendientes d x) \<le> length (nodos d)"
proof -
  have "card (descendientes d x) \<le> card (set (nodos d))"
    using descendientes_nodos[OF assms] by (intro card_mono) simp_all
  also have "\<dots> \<le> length (nodos d)" by (rule card_length)
  finally show ?thesis .
qed

text \<open>
  C1. On a diagram reached by operations, with fuel for its size, \<^verbatim>\<open>enlazarNodos\<close>
  returns. It answers \<open>True\<close> exactly when both ids are registered, the child is not
  yet in the parent's children, and the parent is not reachable from the child along
  the children edges of the diagram as it is before the call. On \<open>True\<close> the child is
  appended to the parent's children and the parent to the child's parents, and the
  edges are the old ones and the new one; on \<open>False\<close> the diagram is the same.
\<close>

theorem C1_enlazar_si_y_solo_si:
  assumes "ejecutar f ops nom = Some d" and "length (nodos d) < fuel"
  shows "\<exists>b d'. enlazarNodos fuel p c d = Some (b, d')
       \<and> (b \<longleftrightarrow> p \<in> set (nodos d) \<and> c \<in> set (nodos d) \<and> c \<notin> set (hijos (nodo d p))
                 \<and> (c, p) \<notin> (aristas d)\<^sup>*)
       \<and> (b \<longrightarrow> hijos (nodo d' p) = hijos (nodo d p) @ [c]
                 \<and> padres (nodo d' c) = padres (nodo d c) @ [p]
                 \<and> aristas d' = insert (p, c) (aristas d))
       \<and> (\<not> b \<longrightarrow> d' = d)"
proof -
  note bf = ejecutar_bien_formado[OF assms(1)]
  let ?cond = "p \<in> set (nodos d) \<and> c \<in> set (nodos d) \<and> c \<notin> set (hijos (nodo d p))"
  show ?thesis
  proof (cases ?cond)
    case False
    then have "enlazarNodos fuel p c d = Some (False, d)"
      by (auto simp: enlazarNodos_def)
    with False show ?thesis by (intro exI[of _ False] exI[of _ d]) simp
  next
    case True
    from creaCiclo_termina[OF assms(2)] obtain r where r: "creaCiclo fuel p c d = Some r" by blast
    from creaCiclo_correcto[OF r] have rr: "r \<longleftrightarrow> (c, p) \<in> (aristas d)\<^sup>*" .
    show ?thesis
    proof (cases r)
      case True
      with r \<open>?cond\<close> have "enlazarNodos fuel p c d = Some (False, d)"
        by (simp add: enlazarNodos_def)
      with True rr show ?thesis by (intro exI[of _ False] exI[of _ d]) simp
    next
      case False
      with rr have nc: "(c, p) \<notin> (aristas d)\<^sup>*" by simp
      from True have p: "p \<in> set (nodos d)" and c: "c \<in> set (nodos d)"
        and nh: "c \<notin> set (hijos (nodo d p))" by simp_all
      have b3: "bien_formado (enlace p c d)" by (rule bien_formado_enlace[OF bf p c nh nc])
      from card_descendientes_nodos[OF b3, of c] c assms(2)
      have "card (descendientes (enlace p c d) c) \<le> fuel" by simp
      from propagar_termina[OF bien_formado_aciclico[OF b3] this]
      obtain d' where pr: "propagarRestricciones fuel c (enlace p c d) = Some d'" by blast
      from r False have "creaCiclo fuel p c d = Some False" by simp
      from enlazarNodos_pasa[OF p c nh this] pr
      have e: "enlazarNodos fuel p c d = Some (True, d')" by simp
      from propagar_crecen[OF pr] have m: "misma_estructura (enlace p c d) d'" by simp
      then have h: "hijos (nodo d' p) = hijos (nodo d p) @ [c]"
        and q: "padres (nodo d' c) = padres (nodo d c) @ [p]"
        by (simp_all add: misma_estructura_def hijos_enlace padres_enlace)
      from m have a: "aristas d' = insert (p, c) (aristas d)"
        by (simp add: aristas_misma aristas_enlace[OF p])
      from e True nc h q a show ?thesis by (intro exI[of _ True] exI[of _ d']) simp
    qed
  qed
qed

theorem C1_witness:
  "ejecutar 0 [Anadir ''A'' (Some 1) None, Anadir ''B'' (Some 1) None] ''P''
     = Some ejemplo_hermanos
   \<and> length (nodos ejemplo_hermanos) < 4
   \<and> (\<exists>b d'. enlazarNodos 4 2 3 ejemplo_hermanos = Some (b, d')
       \<and> (b \<longleftrightarrow> 2 \<in> set (nodos ejemplo_hermanos) \<and> 3 \<in> set (nodos ejemplo_hermanos)
                 \<and> 3 \<notin> set (hijos (nodo ejemplo_hermanos 2))
                 \<and> (3, 2) \<notin> (aristas ejemplo_hermanos)\<^sup>*)
       \<and> (b \<longrightarrow> hijos (nodo d' 2) = hijos (nodo ejemplo_hermanos 2) @ [3]
                 \<and> padres (nodo d' 3) = padres (nodo ejemplo_hermanos 3) @ [2]
                 \<and> aristas d' = insert (2, 3) (aristas ejemplo_hermanos))
       \<and> (\<not> b \<longrightarrow> d' = ejemplo_hermanos))
   \<and> fst (the (enlazarNodos 4 2 3 ejemplo_hermanos))"
proof -
  have n: "length (nodos ejemplo_hermanos) < 4" by (simp add: ejemplo_hermanos_def evaluar)
  have t: "fst (the (enlazarNodos 4 2 3 ejemplo_hermanos))"
    by (simp add: ejemplo_hermanos_def evaluar)
  from C1_enlazar_si_y_solo_si[OF ejemplo_hermanos_alcanzable n, of 2 3]
    ejemplo_hermanos_alcanzable n t
  show ?thesis by blast
qed

section \<open>What a deletion leaves behind\<close>

text \<open>
  On a diagram reached by operations, a deletion of a registered node answers \<open>True\<close>;
  afterwards the node is not registered and no registered node has it among its
  children or its parents. (Its homologs are another matter, see C4.)
\<close>

lemma eliminarNodo_sin_referencias:
  assumes r: "ejecutar f ops nom = Some d" and e: "eliminarNodo fuel x d = Some (b, d')"
    and x: "x \<in> set (nodos d)"
  shows "b \<and> obtenerNodo x d' = None
       \<and> (\<forall>k \<in> set (nodos d'). x \<notin> set (hijos (nodo d' k)) \<and> x \<notin> set (padres (nodo d' k)))"
proof -
  note inv = ejecutar_invariante[OF r]
  then have bf: "bien_formado d" by (simp add: invariante_def)
  from eliminarNodo_correcto[OF inv e] x
  have b: b and re: "restringido d (descendientes d x) d'" by simp_all
  note n = restringido_nodos[OF re]
  have xn: "x \<notin> set (nodos d')" by (simp add: n)
  have "x \<notin> set (hijos (nodo d' k)) \<and> x \<notin> set (padres (nodo d' k))"
    if "k \<in> set (nodos d')" for k
  proof -
    from that have k: "k \<in> set (nodos d)" "k \<notin> descendientes d x" by (simp_all add: n)
    note c = restringido_campos(1,2)[OF re k]
    have "x \<notin> set (padres (nodo d k))"
    proof
      assume "x \<in> set (padres (nodo d k))"
      from bien_formado_padre[OF bf k(1) this] have "(x, k) \<in> aristas d"
        by (simp add: aristas_def)
      then have "k \<in> descendientes d x" by (auto simp: descendientes_def)
      with k(2) show False by simp
    qed
    with c show ?thesis by simp
  qed
  with b xn show ?thesis by (simp add: obtenerNodo_def)
qed

section \<open>The layer-wise union is a least upper bound\<close>

lemma capas_le_nil [simp]: "capas_le [] xs"
  by (simp add: capas_le_def)







section \<open>The layers that the current parents give\<close>








section \<open>No operation writes a constraint\<close>

text \<open>
  No method of \<^verbatim>\<open>Diagrama\<close> and no endpoint assigns \<^verbatim>\<open>restricciones_propias\<close>, so on
  the diagrams that operations reach every own set is the empty set of \<^verbatim>\<open>Nodo()\<close>, and
  every inherited layer, a union of such sets, is empty too. The layers of a node then
  differ from diagram to diagram in their number only.
\<close>

lemma todas_vacias_nil [simp]: "todas_vacias []"
  by (simp add: todas_vacias_def)

















section \<open>Without unlinking the layers are those of the current parents\<close>


















end
